theory Spec2Isabelle
  imports Main "HOL-Library.Sublist"
begin

section \<open>Strings and numbers of the host language\<close>

text \<open>
  A string of the program is a sequence of 16-bit code units. The model keeps the code
  units U+0000 .. U+00FF: a \<^typ>\<open>char\<close> is read as the code unit with the same number
  (Latin-1), and \<^typ>\<open>string\<close> is the program's string over those units. On such strings
  the functions below are the program's. A string with a unit above U+00FF is outside
  the model: there \<^verbatim>\<open>toLowerCase\<close> can produce word characters from units that are none
  (U+212A gives \<open>k\<close>, U+0130 gives \<open>i\<close> and U+0307), and \<^verbatim>\<open>\s\<close> has further members. What
  is proved of the identity verifier without looking at the alphabet is therefore stated
  a second time for any alphabet, any lowercasing and any class of kept units.
\<close>

definition code_unit :: "char \<Rightarrow> nat" where
  "code_unit c = of_char c"

text \<open>The regular-expression class \<^verbatim>\<open>\d\<close>: the ten digits.\<close>

definition is_digit :: "char \<Rightarrow> bool" where
  "is_digit c = (48 \<le> code_unit c \<and> code_unit c \<le> 57)"

text \<open>The class \<^verbatim>\<open>\w\<close> (no unicode or ignore-case flag): letters A-Z and a-z, digits, underscore.\<close>

definition is_word :: "char \<Rightarrow> bool" where
  "is_word c = (let n = code_unit c in
     (65 \<le> n \<and> n \<le> 90) \<or> (97 \<le> n \<and> n \<le> 122) \<or> (48 \<le> n \<and> n \<le> 57) \<or> n = 95)"

text \<open>
  The class \<^verbatim>\<open>\s\<close>, which is also what \<^verbatim>\<open>trim\<close> and \<^verbatim>\<open>parseInt\<close> skip: tab, line feed,
  vertical tab, form feed, carriage return, space and the no-break space U+00A0.
\<close>

definition is_space :: "char \<Rightarrow> bool" where
  "is_space c = (let n = code_unit c in (9 \<le> n \<and> n \<le> 13) \<or> n = 32 \<or> n = 160)"

text \<open>
  \<^verbatim>\<open>String.prototype.toLowerCase\<close>: A-Z and the upper-case letters U+00C0 .. U+00DE
  (U+00D7, the multiplication sign, apart) move up by 32; every other unit stays.
\<close>

definition lower_char :: "char \<Rightarrow> char" where
  "lower_char c = (let n = code_unit c in
     if (65 \<le> n \<and> n \<le> 90) \<or> (192 \<le> n \<and> n \<le> 222 \<and> n \<noteq> 215)
     then char_of (n + 32) else c)"

definition toLowerCase :: "string \<Rightarrow> string" where
  "toLowerCase s = map lower_char s"

text \<open>\<^verbatim>\<open>String.prototype.trim\<close>.\<close>

definition trim :: "string \<Rightarrow> string" where
  "trim s = rev (dropWhile is_space (rev (dropWhile is_space s)))"

text \<open>\<^verbatim>\<open>s.includes(t)\<close>: \<open>t\<close> occurs in \<open>s\<close> as a contiguous run of code units.\<close>

fun string_includes :: "string \<Rightarrow> string \<Rightarrow> bool" where
  "string_includes [] t = (t = [])"
| "string_includes (c # cs) t = (prefix t (c # cs) \<or> string_includes cs t)"

text \<open>\<^verbatim>\<open>a || d\<close> on an optional string: \<open>undefined\<close> and the empty string are falsy.\<close>

definition or_else :: "string option \<Rightarrow> string \<Rightarrow> string" where
  "or_else a d = (case a of None \<Rightarrow> d | Some s \<Rightarrow> if s = [] then d else s)"

text \<open>
  A number of the program that holds an integer, or \<open>NaN\<close> (\<open>None\<close>). The numbers met
  here stay far below \<open>2^53\<close>, where the program's floating-point numbers are exact.
\<close>

type_synonym number = "int option"

definition digit_value :: "char \<Rightarrow> nat" where
  "digit_value c = (let n = code_unit c in
     if 48 \<le> n \<and> n \<le> 57 then n - 48
     else if 97 \<le> n \<and> n \<le> 102 then n - 87
     else if 65 \<le> n \<and> n \<le> 70 then n - 55
     else 36)"

definition digits_value :: "nat \<Rightarrow> string \<Rightarrow> nat" where
  "digits_value radix ds = foldl (\<lambda>acc c. acc * radix + digit_value c) 0 ds"

text \<open>
  \<^verbatim>\<open>parseInt(s)\<close> with no radix: skip leading white space, read a sign, read the prefix
  \<^verbatim>\<open>0x\<close> or \<^verbatim>\<open>0X\<close> (radix 16, else 10), then the longest run of digits of the radix;
  \<open>NaN\<close> when the run is empty.
\<close>

definition parseInt :: "string \<Rightarrow> number" where
  "parseInt s =
     (let t = dropWhile is_space s;
          neg = (take 1 t = ''-'');
          u = (if take 1 t = ''-'' \<or> take 1 t = ''+'' then drop 1 t else t);
          hex = (take 2 u = ''0x'' \<or> take 2 u = ''0X'');
          radix = (if hex then 16 else 10);
          v = (if hex then drop 2 u else u);
          z = takeWhile (\<lambda>c. digit_value c < radix) v
      in if z = [] then None
         else Some ((if neg then - 1 else 1) * int (digits_value radix z)))"

fun string_of_nat :: "nat \<Rightarrow> string" where
  "string_of_nat n =
     (if n < 10 then [char_of (48 + n)]
      else string_of_nat (n div 10) @ [char_of (48 + n mod 10)])"

declare string_of_nat.simps [simp del]

text \<open>\<^verbatim>\<open>Number.prototype.toString\<close> on an integer or \<open>NaN\<close>.\<close>

definition toString :: "number \<Rightarrow> string" where
  "toString x =
     (case x of None \<Rightarrow> ''NaN''
      | Some i \<Rightarrow> if i < 0 then CHR ''-'' # string_of_nat (nat (- i)) else string_of_nat (nat i))"

section \<open>Regular expressions of \<^verbatim>\<open>extractYear\<close>\<close>

text \<open>
  The two patterns are sequences of atoms, each matching one code unit or asserting a
  word boundary; there is no alternative and no repetition, so a match attempt at a
  position never backtracks. \<open>match_here\<close> attempts the pattern at one position, given
  the unit before it; \<open>regex_search\<close> moves the position from left to right and stops at
  the first success, as \<^verbatim>\<open>text.match(pattern)\<close> does for a pattern without the global
  flag. The result is \<^verbatim>\<open>match[0]\<close>, the matched text.
\<close>

datatype atom = WordBoundary | Lit char | Digit

type_synonym regex = "atom list"

definition word_at :: "char option \<Rightarrow> bool" where
  "word_at c = (case c of None \<Rightarrow> False | Some x \<Rightarrow> is_word x)"

definition next_unit :: "string \<Rightarrow> char option" where
  "next_unit s = (case s of [] \<Rightarrow> None | c # _ \<Rightarrow> Some c)"

fun match_here :: "regex \<Rightarrow> char option \<Rightarrow> string \<Rightarrow> string option" where
  "match_here [] prev s = Some []"
| "match_here (WordBoundary # as) prev s =
     (if word_at prev \<noteq> word_at (next_unit s) then match_here as prev s else None)"
| "match_here (Lit x # as) prev [] = None"
| "match_here (Lit x # as) prev (c # cs) =
     (if c = x then map_option ((#) c) (match_here as (Some c) cs) else None)"
| "match_here (Digit # as) prev [] = None"
| "match_here (Digit # as) prev (c # cs) =
     (if is_digit c then map_option ((#) c) (match_here as (Some c) cs) else None)"

fun regex_search :: "regex \<Rightarrow> char option \<Rightarrow> string \<Rightarrow> string option" where
  "regex_search p prev [] = match_here p prev []"
| "regex_search p prev (c # cs) =
     (case match_here p prev (c # cs) of
        Some m \<Rightarrow> Some m
      | None \<Rightarrow> regex_search p (Some c) cs)"

definition regex_match :: "string \<Rightarrow> regex \<Rightarrow> string option" where
  "regex_match text p = regex_search p None text"

text \<open>\<^verbatim>\<open>/\b20\d{2}\b/\<close> and \<^verbatim>\<open>/\b\d{4}\b/\<close>.\<close>

definition yearPatterns :: "regex list" where
  "yearPatterns =
     [[WordBoundary, Lit CHR ''2'', Lit CHR ''0'', Digit, Digit, WordBoundary],
      [WordBoundary, Digit, Digit, Digit, Digit, WordBoundary]]"

section \<open>The searcher's helpers\<close>

record SearchResult =
  source :: string
  title :: string
  year :: string
  url :: string
  description :: string

text \<open>\<^verbatim>\<open>verifyMagazineIdentity\<close>; \<open>magazine_name\<close> is the searcher's field.\<close>

definition clean :: "string \<Rightarrow> string" where
  "clean s = filter (\<lambda>c. is_word c \<or> is_space c) (toLowerCase s)"

definition verifyMagazineIdentity :: "string \<Rightarrow> string \<Rightarrow> bool" where
  "verifyMagazineIdentity magazine_name t =
     (if t = [] then False
      else let cleanTitle = clean t; cleanTarget = clean magazine_name
           in cleanTitle = cleanTarget \<or> string_includes cleanTitle cleanTarget)"

definition isYearInRange :: "string \<Rightarrow> bool" where
  "isYearInRange y =
     (case parseInt y of None \<Rightarrow> False | Some yearNum \<Rightarrow> yearNum \<ge> 2000 \<and> yearNum \<le> 2025)"

text \<open>The loop of \<^verbatim>\<open>extractYear\<close> over the patterns still to try.\<close>

fun extractYear_loop :: "regex list \<Rightarrow> string \<Rightarrow> string" where
  "extractYear_loop [] text = ''Unknown''"
| "extractYear_loop (pattern # rest) text =
     (case regex_match text pattern of
        None \<Rightarrow> extractYear_loop rest text
      | Some m \<Rightarrow>
          (let y = parseInt m in
           if isYearInRange (toString y) then toString y
           else extractYear_loop rest text))"

definition extractYear :: "string \<Rightarrow> string" where
  "extractYear text = extractYear_loop yearPatterns text"

text \<open>
  \<^verbatim>\<open>deduplicateResults\<close>: the filter's callback reads and extends the set \<open>seen\<close>; the
  set is threaded through the scan.
\<close>

fun dedup_filter :: "string set \<Rightarrow> SearchResult list \<Rightarrow> SearchResult list" where
  "dedup_filter seen [] = []"
| "dedup_filter seen (r # rs) =
     (if url r \<in> seen then dedup_filter seen rs
      else r # dedup_filter (insert (url r) seen) rs)"

definition deduplicateResults :: "SearchResult list \<Rightarrow> SearchResult list" where
  "deduplicateResults results = dedup_filter {} results"

section \<open>The network, as the searcher sees it\<close>

text \<open>
  The HTTP client, the HTML parser, the \<^verbatim>\<open>URL\<close> constructor and \<^verbatim>\<open>Date\<close> are libraries
  outside the program. A run of the searcher is a function of what they answer, which
  the environment \<open>Env\<close> records: a request either throws (\<open>Inl\<close>) or delivers the
  typed payload of the program's interface declarations (\<open>Inr\<close>). Optional fields are
  options. The fields keep the names of the interfaces, with a prefix where two
  interfaces share a name (\<open>doc_\<close>, \<open>vol_\<close>, \<open>post_\<close>); \<open>listing\<close> and \<open>post_data\<close> are
  the two fields called \<^verbatim>\<open>data\<close> of the social site's answer.
\<close>

datatype error = NetworkError | ParseError | TypeError

record ArchiveDoc =
  doc_identifier :: string
  doc_title :: string
  doc_year :: "string option"
  doc_description :: "string option"

record ArchiveOrgBody =
  docs :: "ArchiveDoc list option"

record ArchiveOrgResponse =
  response :: "ArchiveOrgBody option"

record VolumeInfo =
  vol_title :: "string option"
  publishedDate :: "string option"
  vol_description :: "string option"
  previewLink :: "string option"

record GoogleItem =
  volumeInfo :: "VolumeInfo option"

record GoogleBooksResponse =
  items :: "GoogleItem list option"

record PostData =
  post_title :: string
  created_utc :: int
  permalink :: string
  selftext :: "string option"

record RedditChild =
  post_data :: PostData

record RedditListing =
  children :: "RedditChild list option"

record RedditResponse =
  listing :: "RedditListing option"

text \<open>
  A scraped page is seen through the selectors of its site only: the page is the list
  of the elements its container selector finds, and of each element the program reads
  the text under the title selector, the \<^verbatim>\<open>href\<close> attribute under the link selector
  (\<open>None\<close> when there is none), the text under the description selector, and the
  element's whole text.
\<close>

record Element =
  found_title :: string
  found_href :: "string option"
  found_description :: string
  element_text :: string

text \<open>
  Each request is identified by its address: the query parameters are fixed by the
  target name and the unit. \<open>get_html\<close> is the request followed by the loading of the
  page into the parser. \<open>getFullYear\<close> is the calendar year, in the host's time zone, of
  an instant given in milliseconds (\<open>NaN\<close> for an invalid date); \<open>new_URL href base\<close> is
  \<^verbatim>\<open>new URL(href, base).toString()\<close>, which throws a \<^verbatim>\<open>TypeError\<close> when the link does
  not parse.
\<close>

record Env =
  get_archive :: "string \<Rightarrow> error + ArchiveOrgResponse"
  get_books :: "string \<Rightarrow> error + GoogleBooksResponse"
  get_reddit :: "string \<Rightarrow> error + RedditResponse"
  get_html :: "string \<Rightarrow> error + Element list"
  getFullYear :: "int \<Rightarrow> number"
  new_URL :: "string \<Rightarrow> string \<Rightarrow> error + string"

text \<open>
  What a fetcher does besides computing its result: the requests it sends, the pacing
  delays it waits for (in milliseconds) and the errors it logs, in the order they happen.
\<close>

datatype event = Request string | Delay nat | LogError string

record FetchState =
  results :: "SearchResult list"
  trace :: "event list"

definition push :: "SearchResult \<Rightarrow> FetchState \<Rightarrow> FetchState" where
  "push r s = s\<lparr>results := results s @ [r]\<rparr>"

definition emit :: "event \<Rightarrow> FetchState \<Rightarrow> FetchState" where
  "emit e s = s\<lparr>trace := trace s @ [e]\<rparr>"

definition start :: FetchState where
  "start = \<lparr>results = [], trace = []\<rparr>"

text \<open>
  \<^verbatim>\<open>try { body } catch (error) { handler }\<close> around a body that changes the state: what the
  body did before it threw stays done.
\<close>

definition try_catch ::
  "(FetchState \<Rightarrow> (error + unit) \<times> FetchState) \<Rightarrow> (error \<Rightarrow> FetchState \<Rightarrow> FetchState) \<Rightarrow>
   FetchState \<Rightarrow> FetchState" where
  "try_catch body handler s =
     (case body s of (Inr _, s') \<Rightarrow> s' | (Inl e, s') \<Rightarrow> handler e s')"

section \<open>The five fetchers\<close>

subsection \<open>\<^verbatim>\<open>searchArchiveOrg\<close>\<close>

text \<open>The record pushed for a document of the catalogue.\<close>

definition archive_record :: "ArchiveDoc \<Rightarrow> SearchResult" where
  "archive_record item =
     \<lparr>source = ''archive.org'',
      title = doc_title item,
      year = or_else (doc_year item) ''Unknown'',
      url = ''https://archive.org/details/'' @ doc_identifier item,
      description = or_else (doc_description item) ''''\<rparr>"

fun archive_docs :: "string \<Rightarrow> ArchiveDoc list \<Rightarrow> SearchResult list \<Rightarrow> SearchResult list" where
  "archive_docs magazine_name [] rs = rs"
| "archive_docs magazine_name (item # rest) rs =
     archive_docs magazine_name rest
       (if verifyMagazineIdentity magazine_name (doc_title item)
        then rs @ [archive_record item]
        else rs)"

definition archive_results :: "string \<Rightarrow> ArchiveOrgResponse \<Rightarrow> SearchResult list" where
  "archive_results magazine_name data =
     (case response data of
        None \<Rightarrow> []
      | Some body \<Rightarrow>
          (case docs body of
             None \<Rightarrow> []
           | Some ds \<Rightarrow> archive_docs magazine_name ds []))"

text \<open>
  The body of the method is one \<^verbatim>\<open>try\<close> block, in which only the request can throw; the
  handler logs the error and returns the empty list.
\<close>

definition searchArchiveOrg :: "Env \<Rightarrow> string \<Rightarrow> (error + SearchResult list) \<times> event list" where
  "searchArchiveOrg env magazine_name =
     (let baseUrl = ''https://archive.org/advancedsearch.php'' in
      case get_archive env baseUrl of
        Inr data \<Rightarrow> (Inr (archive_results magazine_name data), [Request baseUrl])
      | Inl e \<Rightarrow> (Inr [], [Request baseUrl, LogError ''Error searching archive.org:'']))"

subsection \<open>\<^verbatim>\<open>searchGoogleBooks\<close>\<close>

text \<open>
  The record pushed for a volume, and the test that guards it: the volume has a
  non-empty title, a year is extracted from its date of publication, and the title
  passes identity verification.
\<close>

definition books_record :: "VolumeInfo \<Rightarrow> SearchResult" where
  "books_record info =
     \<lparr>source = ''google_books'',
      title = or_else (vol_title info) '''',
      year = extractYear (or_else (publishedDate info) ''''),
      url = or_else (previewLink info) '''',
      description = or_else (vol_description info) ''''\<rparr>"

definition books_keeps :: "string \<Rightarrow> VolumeInfo \<Rightarrow> bool" where
  "books_keeps magazine_name info =
     (if or_else (vol_title info) '''' \<noteq> ''''
      then (let y = extractYear (or_else (publishedDate info) '''')
            in y \<noteq> ''Unknown'' \<and>
               verifyMagazineIdentity magazine_name (or_else (vol_title info) ''''))
      else False)"

fun books_items :: "string \<Rightarrow> GoogleItem list \<Rightarrow> SearchResult list \<Rightarrow> SearchResult list" where
  "books_items magazine_name [] rs = rs"
| "books_items magazine_name (item # rest) rs =
     books_items magazine_name rest
       (case volumeInfo item of
          None \<Rightarrow> rs
        | Some info \<Rightarrow>
            (if books_keeps magazine_name info then rs @ [books_record info] else rs))"

definition books_results :: "string \<Rightarrow> GoogleBooksResponse \<Rightarrow> SearchResult list" where
  "books_results magazine_name data =
     (case items data of
        None \<Rightarrow> []
      | Some its \<Rightarrow> books_items magazine_name its [])"

text \<open>As in the catalogue fetcher, one \<^verbatim>\<open>try\<close> block around the request and the loop.\<close>

definition searchGoogleBooks :: "Env \<Rightarrow> string \<Rightarrow> (error + SearchResult list) \<times> event list" where
  "searchGoogleBooks env magazine_name =
     (let baseUrl = ''https://www.googleapis.com/books/v1/volumes'' in
      case get_books env baseUrl of
        Inr data \<Rightarrow> (Inr (books_results magazine_name data), [Request baseUrl])
      | Inl e \<Rightarrow> (Inr [], [Request baseUrl, LogError ''Error searching Google Books:'']))"

subsection \<open>\<^verbatim>\<open>searchRedditArchives\<close>\<close>

definition subreddits :: "string list" where
  "subreddits = [''magazines'', ''archival'', ''vintageculture'', ''OldSchoolCool'']"

definition reddit_url :: "string \<Rightarrow> string" where
  "reddit_url subreddit = ''https://www.reddit.com/r/'' @ subreddit @ ''/search.json''"

definition reddit_record :: "Env \<Rightarrow> string \<Rightarrow> PostData \<Rightarrow> SearchResult" where
  "reddit_record env subreddit postData =
     \<lparr>source = ''reddit/r/'' @ subreddit,
      title = post_title postData,
      year = toString (getFullYear env (created_utc postData * 1000)),
      url = ''https://reddit.com'' @ permalink postData,
      description = take 200 (or_else (selftext postData) '''')\<rparr>"

fun reddit_posts :: "Env \<Rightarrow> string \<Rightarrow> string \<Rightarrow> RedditChild list \<Rightarrow> FetchState \<Rightarrow> FetchState" where
  "reddit_posts env magazine_name subreddit [] s = s"
| "reddit_posts env magazine_name subreddit (post # rest) s =
     reddit_posts env magazine_name subreddit rest
       (let postData = post_data post in
        if verifyMagazineIdentity magazine_name (post_title postData)
        then push (reddit_record env subreddit postData) s
        else s)"

text \<open>The body of the \<^verbatim>\<open>try\<close> block of one subreddit.\<close>

definition reddit_try ::
  "Env \<Rightarrow> string \<Rightarrow> string \<Rightarrow> FetchState \<Rightarrow> (error + unit) \<times> FetchState" where
  "reddit_try env magazine_name subreddit s =
     (let s1 = emit (Request (reddit_url subreddit)) s in
      case get_reddit env (reddit_url subreddit) of
        Inl e \<Rightarrow> (Inl e, s1)
      | Inr data \<Rightarrow>
          (let s2 = (case listing data of
                       None \<Rightarrow> s1
                     | Some l \<Rightarrow>
                         (case children l of
                            None \<Rightarrow> s1
                          | Some posts \<Rightarrow> reddit_posts env magazine_name subreddit posts s1))
           in (Inr (), emit (Delay 2000) s2)))"

text \<open>One turn of the loop over the subreddits: the \<^verbatim>\<open>try\<close> block and its handler.\<close>

definition reddit_iteration :: "Env \<Rightarrow> string \<Rightarrow> string \<Rightarrow> FetchState \<Rightarrow> FetchState" where
  "reddit_iteration env magazine_name subreddit s =
     try_catch (reddit_try env magazine_name subreddit)
       (\<lambda>e. emit (LogError (''Error searching Reddit '' @ subreddit @ '':''))) s"

text \<open>
  The loop awaits each turn before it starts the next; the list of results and the
  trace are carried from turn to turn.
\<close>

fun reddit_loop :: "Env \<Rightarrow> string \<Rightarrow> string list \<Rightarrow> FetchState \<Rightarrow> FetchState" where
  "reddit_loop env magazine_name [] s = s"
| "reddit_loop env magazine_name (subreddit # rest) s =
     reddit_loop env magazine_name rest (reddit_iteration env magazine_name subreddit s)"

definition searchRedditArchives :: "Env \<Rightarrow> string \<Rightarrow> (error + SearchResult list) \<times> event list" where
  "searchRedditArchives env magazine_name =
     (let s = reddit_loop env magazine_name subreddits start in (Inr (results s), trace s))"

subsection \<open>\<^verbatim>\<open>searchGeneralWeb\<close>\<close>

text \<open>
  A site of the two scraping fetchers: its name and the address queried. The query
  parameters and the selectors of a site fix which request is sent and how the page is
  read; both are folded into \<open>get_html\<close>.
\<close>

record Site =
  site_name :: string
  site_url :: string

definition searchEngines :: "Site list" where
  "searchEngines =
     [\<lparr>site_name = ''Google'', site_url = ''https://www.google.com/search''\<rparr>,
      \<lparr>site_name = ''Bing'', site_url = ''https://www.bing.com/search''\<rparr>]"

text \<open>
  The callback of \<^verbatim>\<open>each\<close>: the record pushed for an element of the page, and the test
  that guards it (a non-empty title, a non-empty link, a title that passes identity
  verification).
\<close>

definition web_record :: "Site \<Rightarrow> Element \<Rightarrow> SearchResult" where
  "web_record engine element =
     (let t = trim (found_title element);
          d = trim (found_description element)
      in \<lparr>source = site_name engine,
          title = t,
          year = extractYear (t @ '' '' @ d),
          url = or_else (found_href element) '''',
          description = d\<rparr>)"

definition web_keeps :: "string \<Rightarrow> Element \<Rightarrow> bool" where
  "web_keeps magazine_name element =
     (let t = trim (found_title element);
          u = or_else (found_href element) ''''
      in t \<noteq> '''' \<and> u \<noteq> '''' \<and> verifyMagazineIdentity magazine_name t)"

fun web_each :: "string \<Rightarrow> Site \<Rightarrow> Element list \<Rightarrow> FetchState \<Rightarrow> FetchState" where
  "web_each magazine_name engine [] s = s"
| "web_each magazine_name engine (element # rest) s =
     web_each magazine_name engine rest
       (if web_keeps magazine_name element then push (web_record engine element) s else s)"

definition web_try ::
  "Env \<Rightarrow> string \<Rightarrow> Site \<Rightarrow> FetchState \<Rightarrow> (error + unit) \<times> FetchState" where
  "web_try env magazine_name engine s =
     (let s1 = emit (Request (site_url engine)) s in
      case get_html env (site_url engine) of
        Inl e \<Rightarrow> (Inl e, s1)
      | Inr page \<Rightarrow> (Inr (), emit (Delay 3000) (web_each magazine_name engine page s1)))"

definition web_iteration :: "Env \<Rightarrow> string \<Rightarrow> Site \<Rightarrow> FetchState \<Rightarrow> FetchState" where
  "web_iteration env magazine_name engine s =
     try_catch (web_try env magazine_name engine)
       (\<lambda>e. emit (LogError (''Error searching '' @ site_name engine @ '':''))) s"

fun web_loop :: "Env \<Rightarrow> string \<Rightarrow> Site list \<Rightarrow> FetchState \<Rightarrow> FetchState" where
  "web_loop env magazine_name [] s = s"
| "web_loop env magazine_name (engine # rest) s =
     web_loop env magazine_name rest (web_iteration env magazine_name engine s)"

definition searchGeneralWeb :: "Env \<Rightarrow> string \<Rightarrow> (error + SearchResult list) \<times> event list" where
  "searchGeneralWeb env magazine_name =
     (let s = web_loop env magazine_name searchEngines start in (Inr (results s), trace s))"

subsection \<open>\<^verbatim>\<open>searchDigitalLibraries\<close>\<close>

definition libraries :: "Site list" where
  "libraries =
     [\<lparr>site_name = ''HathiTrust'', site_url = ''https://babel.hathitrust.org/cgi/ls''\<rparr>,
      \<lparr>site_name = ''Internet Archive'', site_url = ''https://archive.org/search.php''\<rparr>,
      \<lparr>site_name = ''Digital Public Library of America'', site_url = ''https://dp.la/search''\<rparr>,
      \<lparr>site_name = ''WorldCat'', site_url = ''https://www.worldcat.org/search''\<rparr>]"

text \<open>
  The callback of \<^verbatim>\<open>each\<close> builds the record before it pushes it, and the \<^verbatim>\<open>URL\<close>
  constructor may throw while it does: the exception leaves the iteration, and the
  records pushed for earlier elements stay in \<open>results\<close>.
\<close>

definition library_record :: "Site \<Rightarrow> Element \<Rightarrow> string \<Rightarrow> SearchResult" where
  "library_record library element u =
     \<lparr>source = site_name library,
      title = trim (found_title element),
      year = extractYear (element_text element),
      url = u,
      description = trim (found_description element)\<rparr>"

definition library_keeps :: "string \<Rightarrow> Element \<Rightarrow> bool" where
  "library_keeps magazine_name element =
     (let t = trim (found_title element)
      in t \<noteq> '''' \<and> verifyMagazineIdentity magazine_name t)"

fun library_each ::
  "Env \<Rightarrow> string \<Rightarrow> Site \<Rightarrow> Element list \<Rightarrow> FetchState \<Rightarrow> (error + unit) \<times> FetchState" where
  "library_each env magazine_name library [] s = (Inr (), s)"
| "library_each env magazine_name library (element # rest) s =
     (if library_keeps magazine_name element
      then (case new_URL env (or_else (found_href element) '''') (site_url library) of
              Inl e \<Rightarrow> (Inl e, s)
            | Inr u \<Rightarrow>
                library_each env magazine_name library rest
                  (push (library_record library element u) s))
      else library_each env magazine_name library rest s)"

definition library_try ::
  "Env \<Rightarrow> string \<Rightarrow> Site \<Rightarrow> FetchState \<Rightarrow> (error + unit) \<times> FetchState" where
  "library_try env magazine_name library s =
     (let s1 = emit (Request (site_url library)) s in
      case get_html env (site_url library) of
        Inl e \<Rightarrow> (Inl e, s1)
      | Inr page \<Rightarrow>
          (case library_each env magazine_name library page s1 of
             (Inl e, s2) \<Rightarrow> (Inl e, s2)
           | (Inr _, s2) \<Rightarrow> (Inr (), emit (Delay 2000) s2)))"

definition library_iteration :: "Env \<Rightarrow> string \<Rightarrow> Site \<Rightarrow> FetchState \<Rightarrow> FetchState" where
  "library_iteration env magazine_name library s =
     try_catch (library_try env magazine_name library)
       (\<lambda>e. emit (LogError (''Error searching '' @ site_name library @ '':''))) s"

fun library_loop :: "Env \<Rightarrow> string \<Rightarrow> Site list \<Rightarrow> FetchState \<Rightarrow> FetchState" where
  "library_loop env magazine_name [] s = s"
| "library_loop env magazine_name (library # rest) s =
     library_loop env magazine_name rest (library_iteration env magazine_name library s)"

definition searchDigitalLibraries :: "Env \<Rightarrow> string \<Rightarrow> (error + SearchResult list) \<times> event list" where
  "searchDigitalLibraries env magazine_name =
     (let s = library_loop env magazine_name libraries start in (Inr (results s), trace s))"

section \<open>\<^verbatim>\<open>searchAll\<close>\<close>

text \<open>
  \<^verbatim>\<open>Promise.all\<close> fulfils with the values in the order of its argument, whatever the
  order in which the promises settle, and rejects as soon as one of them rejects.
\<close>

fun promise_all :: "(error + 'a) list \<Rightarrow> error + 'a list" where
  "promise_all [] = Inr []"
| "promise_all (p # ps) =
     (case p of
        Inl e \<Rightarrow> Inl e
      | Inr x \<Rightarrow> (case promise_all ps of Inl e \<Rightarrow> Inl e | Inr xs \<Rightarrow> Inr (x # xs)))"

definition searchMethods ::
  "(Env \<Rightarrow> string \<Rightarrow> (error + SearchResult list) \<times> event list) list" where
  "searchMethods =
     [searchArchiveOrg, searchGoogleBooks, searchRedditArchives,
      searchDigitalLibraries, searchGeneralWeb]"

definition searchAll :: "Env \<Rightarrow> string \<Rightarrow> error + SearchResult list" where
  "searchAll env magazine_name =
     (case promise_all (map (\<lambda>method. fst (method env magazine_name)) searchMethods) of
        Inr rs \<Rightarrow> Inr (deduplicateResults (concat rs))
      | Inl e \<Rightarrow> Inr [])"

section \<open>Notions used to state the properties\<close>

text \<open>A number lies in the window of years the searcher accepts.\<close>

definition year_in_window :: "number \<Rightarrow> bool" where
  "year_in_window y = (case y of None \<Rightarrow> False | Some n \<Rightarrow> 2000 \<le> n \<and> n \<le> 2025)"

text \<open>The matches of the year patterns in a text, in the order of the patterns.\<close>

definition year_candidates :: "string \<Rightarrow> string list" where
  "year_candidates text = List.map_filter (regex_match text) yearPatterns"

text \<open>The records a settled fetcher hands to \<^verbatim>\<open>searchAll\<close>.\<close>

definition fulfilled :: "(error + SearchResult list) \<times> event list \<Rightarrow> SearchResult list" where
  "fulfilled p = (case fst p of Inr rs \<Rightarrow> rs | Inl e \<Rightarrow> [])"

text \<open>
  A trace is paced when every request is followed by a delay before the next request
  (or the end of the trace).
\<close>

fun is_request :: "event \<Rightarrow> bool" where
  "is_request (Request u) = True"
| "is_request (Delay n) = False"
| "is_request (LogError m) = False"

fun is_delay :: "event \<Rightarrow> bool" where
  "is_delay (Request u) = False"
| "is_delay (Delay n) = True"
| "is_delay (LogError m) = False"

fun paced :: "event list \<Rightarrow> bool" where
  "paced [] = True"
| "paced (e # es) =
     ((if is_request e then list_ex is_delay (takeWhile (\<lambda>x. \<not> is_request x) es) else True)
      \<and> paced es)"

text \<open>
  What each turn of the three iterating fetchers appends to the trace: the request,
  then the delay when the turn ran to its end, or else the logged error.
\<close>

definition reddit_turn :: "Env \<Rightarrow> string \<Rightarrow> event list" where
  "reddit_turn env subreddit =
     Request (reddit_url subreddit) #
       (case get_reddit env (reddit_url subreddit) of
          Inr data \<Rightarrow> [Delay 2000]
        | Inl e \<Rightarrow> [LogError (''Error searching Reddit '' @ subreddit @ '':'')])"

definition web_turn :: "Env \<Rightarrow> Site \<Rightarrow> event list" where
  "web_turn env engine =
     Request (site_url engine) #
       (case get_html env (site_url engine) of
          Inr page \<Rightarrow> [Delay 3000]
        | Inl e \<Rightarrow> [LogError (''Error searching '' @ site_name engine @ '':'')])"

definition library_turn :: "Env \<Rightarrow> string \<Rightarrow> Site \<Rightarrow> event list" where
  "library_turn env magazine_name library =
     Request (site_url library) #
       (case get_html env (site_url library) of
          Inr page \<Rightarrow>
            (case fst (library_each env magazine_name library page start) of
               Inr u \<Rightarrow> [Delay 2000]
             | Inl e \<Rightarrow> [LogError (''Error searching '' @ site_name library @ '':'')])
        | Inl e \<Rightarrow> [LogError (''Error searching '' @ site_name library @ '':'')])"

text \<open>
  An absolute URL begins with a scheme and a colon; a scheme is a letter followed by
  letters, digits, plus, minus and dot (RFC 3986).
\<close>

definition is_alpha :: "char \<Rightarrow> bool" where
  "is_alpha c = (let n = code_unit c in (65 \<le> n \<and> n \<le> 90) \<or> (97 \<le> n \<and> n \<le> 122))"

definition is_scheme_char :: "char \<Rightarrow> bool" where
  "is_scheme_char c = (is_alpha c \<or> is_digit c \<or> c = CHR ''+'' \<or> c = CHR ''-'' \<or> c = CHR ''.'')"

definition is_absolute_url :: "string \<Rightarrow> bool" where
  "is_absolute_url u =
     (let scheme = takeWhile (\<lambda>c. c \<noteq> CHR '':'') u
      in length scheme < length u \<and> list_ex is_alpha (take 1 scheme) \<and> list_all is_scheme_char scheme)"

text \<open>
  The code unit before a position of a text that was reached by reading \<open>pre\<close>, when the
  unit before the text is \<open>prev\<close>; and the atoms that read a unit, with the units they
  read.
\<close>

definition unit_before :: "char option \<Rightarrow> string \<Rightarrow> char option" where
  "unit_before prev pre = (if pre = [] then prev else Some (last pre))"

fun consumes :: "atom \<Rightarrow> char \<Rightarrow> bool" where
  "consumes WordBoundary c = False"
| "consumes (Lit x) c = (c = x)"
| "consumes Digit c = is_digit c"

text \<open>
  The identity verifier over any alphabet: \<open>lower\<close> is the lowercasing of strings and
  \<open>keep\<close> the class of units that survive the cleaning. The verifier of the program is
  the instance at \<open>toLowerCase\<close> and the word characters and white space.
\<close>

definition verify_with ::
    "('a list \<Rightarrow> 'a list) \<Rightarrow> ('a \<Rightarrow> bool) \<Rightarrow> 'a list \<Rightarrow> 'a list \<Rightarrow> bool" where
  "verify_with lower keep target cand =
     (if cand = [] then False
      else let cleanTitle = filter keep (lower cand); cleanTarget = filter keep (lower target)
           in cleanTitle = cleanTarget \<or> sublist cleanTarget cleanTitle)"

text \<open>
  What a year pattern finds, said without the matcher. A four-digit word of a text is
  a run of exactly four digits standing between \<open>pre\<close> and \<open>post\<close> with a word boundary on
  both sides: the unit before it, if any, and the unit after it, if any, are not word
  characters. A twenty-word is a four-digit word that begins with \<open>20\<close>. The leftmost
  occurrence is the one with no occurrence starting further left, and a leftmost year is
  a leftmost occurrence whose value lies in the window.
\<close>

definition four_digit_word :: "string \<Rightarrow> string \<Rightarrow> string \<Rightarrow> bool" where
  "four_digit_word pre m post =
     (length m = 4 \<and> list_all is_digit m
      \<and> (pre = [] \<or> \<not> is_word (last pre)) \<and> (post = [] \<or> \<not> is_word (hd post)))"

definition twenty_word :: "string \<Rightarrow> string \<Rightarrow> string \<Rightarrow> bool" where
  "twenty_word pre m post = (four_digit_word pre m post \<and> prefix ''20'' m)"

definition leftmost_occurrence ::
    "(string \<Rightarrow> string \<Rightarrow> string \<Rightarrow> bool) \<Rightarrow> string \<Rightarrow> string \<Rightarrow> bool" where
  "leftmost_occurrence P str m =
     (\<exists>pre post. str = pre @ m @ post \<and> P pre m post
        \<and> (\<forall>pre' m' post'. str = pre' @ m' @ post' \<and> P pre' m' post'
              \<longrightarrow> length pre \<le> length pre'))"

definition leftmost_year ::
    "(string \<Rightarrow> string \<Rightarrow> string \<Rightarrow> bool) \<Rightarrow> string \<Rightarrow> string \<Rightarrow> bool" where
  "leftmost_year P str m = (leftmost_occurrence P str m \<and> year_in_window (parseInt m))"

text \<open>
  What an answer of the network holds, read the way the fetchers read it: the documents
  of the catalogue's answer, the volumes of the book service's answer, the posts of a
  subreddit's answer and the elements of a site's page; each is empty when the request
  fails or the answer lacks the field.
\<close>

definition archive_docs_of :: "Env \<Rightarrow> ArchiveDoc list" where
  "archive_docs_of env =
     (case get_archive env ''https://archive.org/advancedsearch.php'' of
        Inl e \<Rightarrow> []
      | Inr data \<Rightarrow>
          (case response data of
             None \<Rightarrow> []
           | Some body \<Rightarrow> (case docs body of None \<Rightarrow> [] | Some ds \<Rightarrow> ds)))"

definition books_volumes_of :: "Env \<Rightarrow> VolumeInfo list" where
  "books_volumes_of env =
     (case get_books env ''https://www.googleapis.com/books/v1/volumes'' of
        Inl e \<Rightarrow> []
      | Inr data \<Rightarrow>
          (case items data of None \<Rightarrow> [] | Some its \<Rightarrow> List.map_filter volumeInfo its))"

definition reddit_posts_of :: "Env \<Rightarrow> string \<Rightarrow> PostData list" where
  "reddit_posts_of env subreddit =
     (case get_reddit env (reddit_url subreddit) of
        Inl e \<Rightarrow> []
      | Inr data \<Rightarrow>
          (case listing data of
             None \<Rightarrow> []
           | Some l \<Rightarrow> (case children l of None \<Rightarrow> [] | Some posts \<Rightarrow> map post_data posts)))"

definition page_of :: "Env \<Rightarrow> Site \<Rightarrow> Element list" where
  "page_of env site = (case get_html env (site_url site) of Inl e \<Rightarrow> [] | Inr page \<Rightarrow> page)"

text \<open>
  The \<^verbatim>\<open>URL\<close> constructor resolves the link of an element against the library's address
  when it does not throw; a page resolves when it does so for every element the fetcher
  keeps. What the constructor returns is the serialisation of a parsed URL, which begins
  with its scheme: \<open>resolver_absolute\<close> says so of the constructor of a network.
\<close>

definition resolves :: "Env \<Rightarrow> Site \<Rightarrow> Element \<Rightarrow> bool" where
  "resolves env library element =
     (case new_URL env (or_else (found_href element) '''') (site_url library) of
        Inl e \<Rightarrow> False | Inr u \<Rightarrow> True)"

definition page_resolves :: "Env \<Rightarrow> string \<Rightarrow> Site \<Rightarrow> bool" where
  "page_resolves env magazine_name library =
     (\<forall>element\<in>set (page_of env library).
        library_keeps magazine_name element \<longrightarrow> resolves env library element)"

definition resolver_absolute :: "Env \<Rightarrow> bool" where
  "resolver_absolute env =
     (\<forall>href base u. new_URL env href base = Inr u \<longrightarrow> is_absolute_url u)"

section \<open>Sample inputs\<close>

text \<open>A network on which every request fails, no date is valid and no link parses.\<close>

definition offline :: Env where
  "offline =
     \<lparr>get_archive = (\<lambda>u. Inl NetworkError),
      get_books = (\<lambda>u. Inl NetworkError),
      get_reddit = (\<lambda>u. Inl NetworkError),
      get_html = (\<lambda>u. Inl NetworkError),
      getFullYear = (\<lambda>ms. None),
      new_URL = (\<lambda>href base. Inl TypeError)\<rparr>"

text \<open>The catalogue's answer of the end-to-end scenario: two documents.\<close>

definition widget_response :: ArchiveOrgResponse where
  "widget_response =
     \<lparr>response = Some \<lparr>docs = Some
        [\<lparr>doc_identifier = ''wm12'', doc_title = ''Widget Monthly'',
          doc_year = Some ''2012'', doc_description = None\<rparr>,
         \<lparr>doc_identifier = ''ut'', doc_title = ''Unrelated Thing'',
          doc_year = Some ''2012'', doc_description = None\<rparr>]\<rparr>\<rparr>"

definition widget_env :: Env where
  "widget_env = offline\<lparr>get_archive := (\<lambda>u. Inr widget_response)\<rparr>"

text \<open>
  A network on which every request is answered with an empty payload; every instant
  falls in 2015 and every link is taken as it stands.
\<close>

definition quiet :: Env where
  "quiet =
     \<lparr>get_archive = (\<lambda>u. Inr \<lparr>response = None\<rparr>),
      get_books = (\<lambda>u. Inr \<lparr>items = None\<rparr>),
      get_reddit = (\<lambda>u. Inr \<lparr>listing = None\<rparr>),
      get_html = (\<lambda>u. Inr []),
      getFullYear = (\<lambda>ms. Some 2015),
      new_URL = (\<lambda>href base. Inr href)\<rparr>"


text \<open>A volume with a title and a date of publication, and no preview link.\<close>

definition no_preview :: Env where
  "no_preview = offline
     \<lparr>get_books := (\<lambda>u. Inr \<lparr>items = Some
        [\<lparr>volumeInfo = Some \<lparr>vol_title = Some ''Widget Monthly'',
            publishedDate = Some ''2012-05'', vol_description = None,
            previewLink = None\<rparr>\<rparr>]\<rparr>)\<rparr>"

text \<open>
  A page of the third library with two matching elements: the link of the first is an
  absolute address, which the \<^verbatim>\<open>URL\<close> constructor returns as it is; the link of the
  second, \<^verbatim>\<open>http://\<close>, names a scheme and no host, and the constructor throws. Every
  other request fails.
\<close>

definition broken_link :: Env where
  "broken_link = offline
     \<lparr>get_html := (\<lambda>u. if u = ''https://dp.la/search''
        then Inr [\<lparr>found_title = ''Widget Monthly 3'', found_href = Some ''https://dp.la/item/1'',
                   found_description = '''', element_text = ''Widget Monthly 3 (2011)''\<rparr>,
                  \<lparr>found_title = ''Widget Monthly 4'', found_href = Some ''http://'',
                   found_description = '''', element_text = ''Widget Monthly 4 (2012)''\<rparr>]
        else Inl NetworkError),
      new_URL := (\<lambda>href base. if href = ''http://'' then Inl TypeError else Inr href)\<rparr>"

text \<open>A search engine's result whose link is relative to the engine's own address.\<close>

definition relative_link :: Env where
  "relative_link = offline
     \<lparr>get_html := (\<lambda>u. if u = ''https://www.google.com/search''
        then Inr [\<lparr>found_title = ''Widget Monthly'', found_href = Some ''/url?q=widget'',
                   found_description = ''All issues'', element_text = ''Widget Monthly All issues''\<rparr>]
        else Inl NetworkError)\<rparr>"


text \<open>A post of the first subreddit, created in a year after the window.\<close>

definition late_post :: Env where
  "late_post = offline
     \<lparr>get_reddit := (\<lambda>u. if u = ''https://www.reddit.com/r/magazines/search.json''
        then Inr \<lparr>listing = Some \<lparr>children = Some
          [\<lparr>post_data = \<lparr>post_title = ''Widget Monthly scans'', created_utc = 1790000000,
              permalink = ''/r/magazines/comments/1/widget_monthly_scans/'',
              selftext = None\<rparr>\<rparr>]\<rparr>\<rparr>
        else Inl NetworkError),
      getFullYear := (\<lambda>ms. if ms = 1790000000000 then Some 2026 else None)\<rparr>"

text \<open>
  A page of the third library with two matching elements, the first with a link relative
  to the library's address and the second with an absolute link; the \<^verbatim>\<open>URL\<close> constructor
  returns an absolute link as it is, resolves the relative link of the page, and throws
  on everything else. Every other request fails.
\<close>

definition resolved_link :: Env where
  "resolved_link = offline
     \<lparr>get_html := (\<lambda>u. if u = ''https://dp.la/search''
        then Inr [\<lparr>found_title = ''Widget Monthly 3'', found_href = Some ''/item/1'',
                   found_description = '''', element_text = ''Widget Monthly 3 (2011)''\<rparr>,
                  \<lparr>found_title = ''Widget Monthly index'', found_href = Some ''https://dp.la/list'',
                   found_description = '''', element_text = ''Widget Monthly index''\<rparr>]
        else Inl NetworkError),
      new_URL := (\<lambda>href base.
        if is_absolute_url href then Inr href
        else if href = ''/item/1'' \<and> base = ''https://dp.la/search''
        then Inr ''https://dp.la/item/1''
        else Inl TypeError)\<rparr>"

text \<open>
  A post of the first subreddit whose creation time is beyond the range of dates, so
  that its calendar year is \<open>NaN\<close>.
\<close>

definition invalid_date :: Env where
  "invalid_date = offline
     \<lparr>get_reddit := (\<lambda>u. if u = ''https://www.reddit.com/r/magazines/search.json''
        then Inr \<lparr>listing = Some \<lparr>children = Some
          [\<lparr>post_data = \<lparr>post_title = ''Widget Monthly scans'', created_utc = 9000000000000000,
              permalink = ''/r/magazines/comments/2/widget_monthly_scans/'',
              selftext = None\<rparr>\<rparr>]\<rparr>\<rparr>
        else Inl NetworkError)\<rparr>"

section \<open>Characters, digits and numbers\<close>

lemma code_unit_char_of: "n < 256 \<Longrightarrow> code_unit (char_of n) = n"
  by (simp add: code_unit_def)

lemma char_of_code_unit: "char_of (code_unit c) = c"
  by (simp add: code_unit_def)

lemma code_unit_less: "code_unit c < 256"
  unfolding code_unit_def
  by (metis char_of_code_unit code_unit_def of_char_of mod_less_divisor zero_less_numeral)

lemma is_digit_facts:
  assumes "is_digit c"
  shows "\<not> is_space c" "c \<noteq> CHR ''-''" "c \<noteq> CHR ''+''" "c \<noteq> CHR ''x''" "c \<noteq> CHR ''X''"
    "digit_value c < 10" "char_of (48 + digit_value c) = c" "is_word c"
  using assms
  by (auto simp: is_digit_def is_space_def digit_value_def Let_def is_word_def code_unit_def)

lemma is_digit_char_of: "(d::nat) < 10 \<Longrightarrow> is_digit (char_of (48 + d))"
  by (simp add: is_digit_def code_unit_char_of)

lemma digit_value_char_of: "(d::nat) < 10 \<Longrightarrow> digit_value (char_of (48 + d)) = d"
  by (simp add: digit_value_def code_unit_char_of)

lemma digits_value_snoc: "digits_value r (ds @ [c]) = digits_value r ds * r + digit_value c"
  by (simp add: digits_value_def)

lemma string_of_nat_digits: "list_all is_digit (string_of_nat n)"
  by (induction n rule: string_of_nat.induct)
     (subst string_of_nat.simps, simp add: is_digit_char_of)

lemma string_of_nat_not_Nil: "string_of_nat n \<noteq> []"
  by (subst string_of_nat.simps) simp

lemma digits_value_string_of_nat: "digits_value 10 (string_of_nat n) = n"
proof (induction n rule: string_of_nat.induct)
  case (1 n)
  show ?case
  proof (cases "n < 10")
    case True
    then show ?thesis
      by (subst string_of_nat.simps) (simp add: digits_value_def digit_value_char_of)
  next
    case False
    with 1 have "digits_value 10 (string_of_nat (n div 10)) = n div 10" by simp
    with False show ?thesis
      by (subst string_of_nat.simps) (simp add: digits_value_snoc digit_value_char_of)
  qed
qed

lemma parseInt_digits:
  assumes "list_all is_digit ds" "ds \<noteq> []"
  shows "parseInt ds = Some (int (digits_value 10 ds))"
    and "parseInt (CHR ''-'' # ds) = Some (- int (digits_value 10 ds))"
proof -
  obtain c cs where ds: "ds = c # cs" using assms(2) by (cases ds) auto
  have c: "is_digit c" using assms(1) ds by simp
  have t: "dropWhile is_space ds = ds" using c ds by (simp add: is_digit_facts)
  have s: "take 1 ds \<noteq> ''-''" "take 1 ds \<noteq> ''+''" using c ds by (auto simp: is_digit_facts)
  have h: "take 2 ds \<noteq> ''0x''" "take 2 ds \<noteq> ''0X''"
    using assms(1) ds by (cases cs; auto simp: is_digit_facts)+
  have z: "takeWhile (\<lambda>c. digit_value c < 10) ds = ds"
    using assms(1) by (induction ds) (auto simp: is_digit_facts)
  show "parseInt ds = Some (int (digits_value 10 ds))"
    unfolding parseInt_def Let_def t using s h assms(2) by (simp add: z)
  have m: "\<not> is_space CHR ''-''" by code_simp
  show "parseInt (CHR ''-'' # ds) = Some (- int (digits_value 10 ds))"
    unfolding parseInt_def Let_def using m h assms(2) by (simp add: z)
qed

lemma parseInt_string_of_nat: "parseInt (string_of_nat n) = Some (int n)"
  by (simp add: parseInt_digits string_of_nat_digits string_of_nat_not_Nil
      digits_value_string_of_nat)

lemma parseInt_NaN: "parseInt ''NaN'' = None"
  by code_simp

lemma isYearInRange_toString:
  "isYearInRange (toString y) = year_in_window y"
proof (cases y)
  case None
  then show ?thesis
    by (simp add: isYearInRange_def toString_def year_in_window_def parseInt_NaN)
next
  case (Some i)
  show ?thesis
  proof (cases "i < 0")
    case True
    have "parseInt (CHR ''-'' # string_of_nat (nat (- i))) = Some i"
      using True
      by (simp add: parseInt_digits string_of_nat_digits string_of_nat_not_Nil
          digits_value_string_of_nat)
    then show ?thesis using Some True
      by (simp add: isYearInRange_def toString_def year_in_window_def)
  next
    case False
    then show ?thesis using Some
      by (simp add: isYearInRange_def toString_def year_in_window_def parseInt_string_of_nat)
  qed
qed

lemma lower_char_keeps_word: "is_word c \<Longrightarrow> is_word (lower_char c)"
  using code_unit_less [of c]
  by (auto simp: is_word_def lower_char_def Let_def code_unit_char_of)

lemma lower_char_keeps_space: "is_space c \<Longrightarrow> is_space (lower_char c)"
  by (auto simp: is_space_def lower_char_def Let_def)

lemma clean_empty: "clean s = [] \<Longrightarrow> \<forall>c\<in>set s. \<not> is_word c \<and> \<not> is_space c"
  using lower_char_keeps_word lower_char_keeps_space
  by (fastforce simp: clean_def toLowerCase_def filter_empty_conv)

lemma string_includes_sublist: "string_includes s t \<longleftrightarrow> sublist t s"
  by (induction s) (simp_all add: sublist_Cons_right)

lemma digits_value_less: "list_all is_digit ds \<Longrightarrow> digits_value 10 ds < 10 ^ length ds"
proof (induction ds rule: rev_induct)
  case Nil
  then show ?case by (simp add: digits_value_def)
next
  case (snoc c ds)
  then have "digits_value 10 ds < 10 ^ length ds" "digit_value c < 10"
    by (simp_all add: is_digit_facts)
  then show ?case by (simp add: digits_value_snoc)
qed

lemma digits_value_Cons:
  "digits_value 10 (c # cs) = digit_value c * 10 ^ length cs + digits_value 10 cs"
proof (induction cs rule: rev_induct)
  case Nil
  then show ?case by (simp add: digits_value_def)
next
  case (snoc x xs)
  have "digits_value 10 (c # xs @ [x]) = digits_value 10 (c # xs) * 10 + digit_value x"
    using digits_value_snoc [of 10 "c # xs" x] by simp
  with snoc show ?case by (simp add: digits_value_snoc algebra_simps)
qed

lemma string_of_nat_digits_value:
  assumes "list_all is_digit ds" "ds \<noteq> []" "digits_value 10 ds \<ge> 10 ^ (length ds - 1)"
  shows "string_of_nat (digits_value 10 ds) = ds"
  using assms
proof (induction ds rule: rev_induct)
  case Nil
  then show ?case by simp
next
  case (snoc c ds)
  have c: "is_digit c" and ds: "list_all is_digit ds" using snoc.prems(1) by simp_all
  have v: "digits_value 10 (ds @ [c]) = digits_value 10 ds * 10 + digit_value c"
    by (rule digits_value_snoc)
  show ?case
  proof (cases "ds = []")
    case True
    then show ?thesis
      using c by (subst string_of_nat.simps) (simp add: digits_value_def is_digit_facts)
  next
    case False
    then obtain n where n: "length ds = Suc n" by (cases ds) auto
    have "10 * 10 ^ n \<le> digits_value 10 ds * 10 + digit_value c"
      using snoc.prems(3) v n by simp
    moreover have "digit_value c < 10" using c by (simp add: is_digit_facts)
    ultimately have big: "10 ^ n \<le> digits_value 10 ds" by simp
    then have "string_of_nat (digits_value 10 ds) = ds"
      using snoc.IH ds False n by simp
    moreover have "\<not> digits_value 10 ds * 10 + digit_value c < 10"
    proof -
      have "(1::nat) \<le> 10 ^ n" by simp
      with big have "1 \<le> digits_value 10 ds" by linarith
      then show ?thesis by linarith
    qed
    ultimately show ?thesis
      using c v \<open>digit_value c < 10\<close>
      by (subst string_of_nat.simps) (simp add: is_digit_facts)
  qed
qed


section \<open>The year extractor\<close>

text \<open>
  What the matcher computes, stated without the recursion: an attempt at one position
  reads a prefix of the text unit by unit; a pattern between two word boundaries
  matches where a non-word unit (or the start of the text) comes before and a non-word
  unit (or the end) comes after; the search returns the match at the leftmost position
  that has one.
\<close>

lemma match_here_consuming:
  assumes "WordBoundary \<notin> set as"
  shows "match_here as prev s = Some m \<longleftrightarrow> prefix m s \<and> list_all2 consumes as m"
  using assms
proof (induction as prev s arbitrary: m rule: match_here.induct)
  case (1 prev s)
  then show ?case by auto
next
  case (2 as prev s)
  then show ?case by simp
next
  case (3 x as prev)
  then show ?case by (auto simp: list_all2_Cons1)
next
  case (4 x as prev c cs)
  then show ?case by (cases m) (auto simp: list_all2_Cons1)
next
  case (5 as prev)
  then show ?case by (auto simp: list_all2_Cons1)
next
  case (6 as prev c cs)
  then show ?case by (cases m) (auto simp: list_all2_Cons1)
qed

lemma match_here_append:
  "match_here (as @ bs) prev s =
     (case match_here as prev s of
        None \<Rightarrow> None
      | Some m1 \<Rightarrow>
          map_option ((@) m1) (match_here bs (unit_before prev m1) (drop (length m1) s)))"
proof (induction as prev s rule: match_here.induct)
  case (1 prev s)
  then show ?case by (cases "match_here bs prev s") (simp_all add: unit_before_def)
next
  case (4 x as prev c cs)
  have app: "(@) (y # ys) = (\<lambda>zs. y # ys @ zs)" for y :: char and ys
    by (rule ext) simp
  from 4 show ?case
    by (auto simp: unit_before_def option.map_comp comp_def app split: option.splits)
next
  case (6 as prev c cs)
  have app: "(@) (y # ys) = (\<lambda>zs. y # ys @ zs)" for y :: char and ys
    by (rule ext) simp
  from 6 show ?case
    by (auto simp: unit_before_def option.map_comp comp_def app split: option.splits)
next
  case (2 as prev s)
  then show ?case by simp
next
  case (3 x as prev)
  then show ?case by simp
next
  case (5 as prev)
  then show ?case by simp
qed

lemma match_here_bounded:
  assumes "WordBoundary \<notin> set as" "as \<noteq> []"
  shows "match_here (WordBoundary # as @ [WordBoundary]) prev s = Some m \<longleftrightarrow>
     (\<exists>rest. s = m @ rest \<and> list_all2 consumes as m
        \<and> word_at prev \<noteq> word_at (next_unit s)
        \<and> word_at (Some (last m)) \<noteq> word_at (next_unit rest))"
proof -
  have inner: "match_here (as @ [WordBoundary]) prev s = Some m \<longleftrightarrow>
     (\<exists>rest. s = m @ rest \<and> list_all2 consumes as m
        \<and> word_at (Some (last m)) \<noteq> word_at (next_unit rest))"
  proof
    assume "match_here (as @ [WordBoundary]) prev s = Some m"
    then obtain m1 where m1: "match_here as prev s = Some m1"
      and rest: "map_option ((@) m1)
         (match_here [WordBoundary] (unit_before prev m1) (drop (length m1) s)) = Some m"
      by (auto simp: match_here_append split: option.splits)
    from m1 have p: "prefix m1 s" "list_all2 consumes as m1"
      using match_here_consuming [OF assms(1)] by auto
    then have ne: "m1 \<noteq> []" using assms(2) by auto
    from rest have "m = m1" and
      b: "word_at (unit_before prev m1) \<noteq> word_at (next_unit (drop (length m1) s))"
      by (auto split: if_splits)
    from p(1) obtain rest' where "s = m1 @ rest'" by (auto simp: prefix_def)
    with b ne p(2) \<open>m = m1\<close> show "\<exists>rest. s = m @ rest \<and> list_all2 consumes as m
        \<and> word_at (Some (last m)) \<noteq> word_at (next_unit rest)"
      by (auto simp: unit_before_def)
  next
    assume "\<exists>rest. s = m @ rest \<and> list_all2 consumes as m
        \<and> word_at (Some (last m)) \<noteq> word_at (next_unit rest)"
    then obtain rest where r: "s = m @ rest" "list_all2 consumes as m"
      "word_at (Some (last m)) \<noteq> word_at (next_unit rest)" by blast
    then have "match_here as prev s = Some m"
      using match_here_consuming [OF assms(1), of prev s m] by simp
    moreover have "m \<noteq> []" using r(2) assms(2) by auto
    ultimately show "match_here (as @ [WordBoundary]) prev s = Some m"
      using r by (simp add: match_here_append unit_before_def)
  qed
  show ?thesis using inner by auto
qed

lemma regex_search_leftmost:
  "regex_search p prev s = Some m \<longleftrightarrow>
     (\<exists>pre post. s = pre @ post \<and> match_here p (unit_before prev pre) post = Some m
        \<and> (\<forall>pre' post'. s = pre' @ post' \<and> length pre' < length pre \<longrightarrow>
              match_here p (unit_before prev pre') post' = None))"
proof (induction s arbitrary: prev)
  case Nil
  then show ?case by (auto simp: unit_before_def)
next
  case (Cons c cs)
  show ?case
  proof (cases "match_here p prev (c # cs)")
    case (Some m')
    show ?thesis
    proof
      assume "regex_search p prev (c # cs) = Some m"
      with Some have "m' = m" by simp
      with Some show "\<exists>pre post. c # cs = pre @ post
          \<and> match_here p (unit_before prev pre) post = Some m
          \<and> (\<forall>pre' post'. c # cs = pre' @ post' \<and> length pre' < length pre \<longrightarrow>
                match_here p (unit_before prev pre') post' = None)"
        by (intro exI [of _ "[]"] exI [of _ "c # cs"]) (simp add: unit_before_def)
    next
      assume "\<exists>pre post. c # cs = pre @ post
          \<and> match_here p (unit_before prev pre) post = Some m
          \<and> (\<forall>pre' post'. c # cs = pre' @ post' \<and> length pre' < length pre \<longrightarrow>
                match_here p (unit_before prev pre') post' = None)"
      then obtain pre post where s: "c # cs = pre @ post"
        and m: "match_here p (unit_before prev pre) post = Some m"
        and least: "\<forall>pre' post'. c # cs = pre' @ post' \<and> length pre' < length pre \<longrightarrow>
                match_here p (unit_before prev pre') post' = None"
        by blast
      have "pre = []"
      proof (rule ccontr)
        assume "pre \<noteq> []"
        with least [rule_format, of "[]" "c # cs"] Some show False
          by (simp add: unit_before_def)
      qed
      with s have "post = c # cs" by simp
      with m \<open>pre = []\<close> Some have "m' = m" by (simp add: unit_before_def)
      with Some show "regex_search p prev (c # cs) = Some m" by simp
    qed
  next
    case None
    have shift: "unit_before prev (c # pre) = unit_before (Some c) pre" for pre
      by (simp add: unit_before_def)
    show ?thesis
    proof
      assume "regex_search p prev (c # cs) = Some m"
      with None have "regex_search p (Some c) cs = Some m" by simp
      with Cons.IH [of "Some c"] obtain pre post where s: "cs = pre @ post"
        and m: "match_here p (unit_before (Some c) pre) post = Some m"
        and least: "\<forall>pre' post'. cs = pre' @ post' \<and> length pre' < length pre \<longrightarrow>
                match_here p (unit_before (Some c) pre') post' = None"
        by blast
      have "\<forall>pre' post'. c # cs = pre' @ post' \<and> length pre' < length (c # pre) \<longrightarrow>
                match_here p (unit_before prev pre') post' = None"
      proof (intro allI impI)
        fix pre' post'
        assume a: "c # cs = pre' @ post' \<and> length pre' < length (c # pre)"
        show "match_here p (unit_before prev pre') post' = None"
        proof (cases pre')
          case Nil
          with a None show ?thesis by (simp add: unit_before_def)
        next
          case (Cons d ds)
          with a have "cs = ds @ post'" "length ds < length pre" "d = c" by auto
          with least have "match_here p (unit_before (Some c) ds) post' = None" by blast
          with Cons \<open>d = c\<close> show ?thesis by (simp add: shift)
        qed
      qed
      with s m show "\<exists>pre post. c # cs = pre @ post
          \<and> match_here p (unit_before prev pre) post = Some m
          \<and> (\<forall>pre' post'. c # cs = pre' @ post' \<and> length pre' < length pre \<longrightarrow>
                match_here p (unit_before prev pre') post' = None)"
        by (intro exI [of _ "c # pre"] exI [of _ post]) (simp add: shift)
    next
      assume "\<exists>pre post. c # cs = pre @ post
          \<and> match_here p (unit_before prev pre) post = Some m
          \<and> (\<forall>pre' post'. c # cs = pre' @ post' \<and> length pre' < length pre \<longrightarrow>
                match_here p (unit_before prev pre') post' = None)"
      then obtain pre post where s: "c # cs = pre @ post"
        and m: "match_here p (unit_before prev pre) post = Some m"
        and least: "\<forall>pre' post'. c # cs = pre' @ post' \<and> length pre' < length pre \<longrightarrow>
                match_here p (unit_before prev pre') post' = None"
        by blast
      have "pre \<noteq> []"
      proof
        assume "pre = []"
        with s m None show False by (simp add: unit_before_def)
      qed
      then obtain ds where pre: "pre = c # ds" using s by (cases pre) auto
      with s have cs: "cs = ds @ post" by simp
      have "\<forall>pre' post'. cs = pre' @ post' \<and> length pre' < length ds \<longrightarrow>
                match_here p (unit_before (Some c) pre') post' = None"
      proof (intro allI impI)
        fix pre' post'
        assume a: "cs = pre' @ post' \<and> length pre' < length ds"
        with least [rule_format, of "c # pre'" post'] pre
        show "match_here p (unit_before (Some c) pre') post' = None"
          by (simp add: shift)
      qed
      with cs m pre have "regex_search p (Some c) cs = Some m"
        using Cons.IH [of "Some c"] by (auto simp: shift)
      with None show "regex_search p prev (c # cs) = Some m" by simp
    qed
  qed
qed

lemma digits_word:
  assumes "list_all is_digit m" "m \<noteq> []"
  shows "word_at (Some (last m))" "word_at (next_unit (m @ rest))"
proof -
  have w: "is_word c" if "is_digit c" for c
    using that by (auto simp: is_digit_def is_word_def Let_def)
  from assms have "is_digit (last m)" "is_digit (hd m)"
    by (auto simp: list_all_iff)
  with assms(2) show "word_at (Some (last m))" "word_at (next_unit (m @ rest))"
    by (cases m; simp add: word_at_def next_unit_def w)+
qed

lemma digits_bounded:
  assumes "list_all is_digit m" "m \<noteq> []"
  shows "word_at prev \<noteq> word_at (next_unit (m @ rest))
       \<and> word_at (Some (last m)) \<noteq> word_at (next_unit rest)
     \<longleftrightarrow> \<not> word_at prev \<and> \<not> word_at (next_unit rest)"
  using digits_word(1) [OF assms] digits_word(2) [OF assms, of rest] by auto

lemma four_digits_match:
  "match_here [WordBoundary, Digit, Digit, Digit, Digit, WordBoundary] prev s = Some m \<longleftrightarrow>
     (\<exists>rest. s = m @ rest \<and> length m = 4 \<and> list_all is_digit m
        \<and> \<not> word_at prev \<and> \<not> word_at (next_unit rest))"
proof -
  have shape: "list_all2 consumes [Digit, Digit, Digit, Digit] m \<longleftrightarrow>
      length m = 4 \<and> list_all is_digit m"
    by (auto simp: list_all2_Cons1 length_Suc_conv numeral_eq_Suc)
  have "match_here (WordBoundary # [Digit, Digit, Digit, Digit] @ [WordBoundary]) prev s = Some m
     \<longleftrightarrow> (\<exists>rest. s = m @ rest \<and> list_all2 consumes [Digit, Digit, Digit, Digit] m
        \<and> word_at prev \<noteq> word_at (next_unit s)
        \<and> word_at (Some (last m)) \<noteq> word_at (next_unit rest))"
    by (rule match_here_bounded) simp_all
  also have "\<dots> \<longleftrightarrow> (\<exists>rest. s = m @ rest \<and> length m = 4 \<and> list_all is_digit m
        \<and> \<not> word_at prev \<and> \<not> word_at (next_unit rest))"
  proof (intro ex_cong1)
    fix rest
    show "(s = m @ rest \<and> list_all2 consumes [Digit, Digit, Digit, Digit] m
        \<and> word_at prev \<noteq> word_at (next_unit s)
        \<and> word_at (Some (last m)) \<noteq> word_at (next_unit rest))
      \<longleftrightarrow> (s = m @ rest \<and> length m = 4 \<and> list_all is_digit m
        \<and> \<not> word_at prev \<and> \<not> word_at (next_unit rest))"
    proof (cases "s = m @ rest \<and> length m = 4 \<and> list_all is_digit m")
      case True
      then have "m \<noteq> []" by auto
      with True digits_bounded [of m prev rest] show ?thesis
        unfolding shape by blast
    next
      case False
      then show ?thesis unfolding shape by blast
    qed
  qed
  finally show ?thesis by simp
qed

lemma twenty_match:
  "match_here [WordBoundary, Lit CHR ''2'', Lit CHR ''0'', Digit, Digit, WordBoundary] prev s
       = Some m \<longleftrightarrow>
     (\<exists>a b rest. m = [CHR ''2'', CHR ''0'', a, b] \<and> is_digit a \<and> is_digit b \<and> s = m @ rest
        \<and> \<not> word_at prev \<and> \<not> word_at (next_unit rest))"
proof -
  have d: "is_digit CHR ''2''" "is_digit CHR ''0''" by code_simp+
  have shape: "list_all2 consumes [Lit CHR ''2'', Lit CHR ''0'', Digit, Digit] m \<longleftrightarrow>
      (\<exists>a b. m = [CHR ''2'', CHR ''0'', a, b] \<and> is_digit a \<and> is_digit b)"
    by (auto simp: list_all2_Cons1)
  have bound: "word_at prev \<noteq> word_at (next_unit (m @ rest))
       \<and> word_at (Some (last m)) \<noteq> word_at (next_unit rest)
     \<longleftrightarrow> \<not> word_at prev \<and> \<not> word_at (next_unit rest)"
    if "m = [CHR ''2'', CHR ''0'', a, b]" "is_digit a" "is_digit b" for a b rest
  proof -
    from that d have "list_all is_digit m" "m \<noteq> []" by simp_all
    then show ?thesis by (rule digits_bounded)
  qed
  have "match_here (WordBoundary # [Lit CHR ''2'', Lit CHR ''0'', Digit, Digit] @ [WordBoundary])
        prev s = Some m
     \<longleftrightarrow> (\<exists>rest. s = m @ rest
        \<and> list_all2 consumes [Lit CHR ''2'', Lit CHR ''0'', Digit, Digit] m
        \<and> word_at prev \<noteq> word_at (next_unit s)
        \<and> word_at (Some (last m)) \<noteq> word_at (next_unit rest))"
    by (rule match_here_bounded) simp_all
  also have "\<dots> \<longleftrightarrow> (\<exists>a b rest. m = [CHR ''2'', CHR ''0'', a, b] \<and> is_digit a \<and> is_digit b
        \<and> s = m @ rest \<and> \<not> word_at prev \<and> \<not> word_at (next_unit rest))"
    (is "?L \<longleftrightarrow> ?R")
  proof
    assume ?L
    then obtain rest a b where
      "s = m @ rest" "m = [CHR ''2'', CHR ''0'', a, b]" "is_digit a" "is_digit b"
      "word_at prev \<noteq> word_at (next_unit (m @ rest))
       \<and> word_at (Some (last m)) \<noteq> word_at (next_unit rest)"
      unfolding shape by blast
    with bound [of a b rest] show ?R by blast
  next
    assume ?R
    then obtain a b rest where h:
      "m = [CHR ''2'', CHR ''0'', a, b]" "is_digit a" "is_digit b" "s = m @ rest"
      "\<not> word_at prev \<and> \<not> word_at (next_unit rest)"
      by blast
    with bound [of a b rest]
    have "word_at prev \<noteq> word_at (next_unit (m @ rest))
       \<and> word_at (Some (last m)) \<noteq> word_at (next_unit rest)"
      by blast
    with h show ?L unfolding shape by blast
  qed
  finally show ?thesis by simp
qed

lemma match_here_digits:
  assumes "match_here p prev s = Some m"
    and "\<forall>a\<in>set p. a = WordBoundary \<or> a = Digit \<or> (\<exists>x. a = Lit x \<and> is_digit x)"
  shows "list_all is_digit m \<and> length m = length (filter (\<lambda>a. a \<noteq> WordBoundary) p) \<and> prefix m s"
  using assms
  by (induction p prev s arbitrary: m rule: match_here.induct) (auto split: if_splits)

lemma regex_search_match_here:
  "regex_search p prev s = Some m \<Longrightarrow> \<exists>prev' s'. match_here p prev' s' = Some m \<and> suffix s' s"
proof (induction s arbitrary: prev)
  case Nil
  then show ?case by auto
next
  case (Cons c cs)
  show ?case
  proof (cases "match_here p prev (c # cs)")
    case None
    with Cons.prems have "regex_search p (Some c) cs = Some m" by simp
    from Cons.IH [OF this] show ?thesis by (auto intro: suffix_ConsI)
  next
    case (Some m')
    with Cons.prems show ?thesis by auto
  qed
qed

lemma year_match_digits:
  assumes "regex_match text p = Some m" "p \<in> set yearPatterns"
  shows "list_all is_digit m \<and> length m = 4"
proof -
  obtain prev' s' where h: "match_here p prev' s' = Some m"
    using assms(1) regex_search_match_here unfolding regex_match_def by blast
  have d: "is_digit CHR ''2''" "is_digit CHR ''0''" by code_simp+
  have "\<forall>a\<in>set p. a = WordBoundary \<or> a = Digit \<or> (\<exists>x. a = Lit x \<and> is_digit x)"
    using assms(2) d by (auto simp: yearPatterns_def)
  from match_here_digits [OF h this] assms(2) show ?thesis
    by (auto simp: yearPatterns_def)
qed

lemma four_digits_window:
  assumes "list_all is_digit m" "length m = 4" "year_in_window (parseInt m)"
  shows "toString (parseInt m) = m"
proof -
  have ne: "m \<noteq> []" using assms(2) by auto
  have p: "parseInt m = Some (int (digits_value 10 m))"
    using assms(1) ne by (rule parseInt_digits)
  with assms(3) have "2000 \<le> digits_value 10 m" by (simp add: year_in_window_def)
  then have "10 ^ (length m - 1) \<le> digits_value 10 m" using assms(2) by simp
  from string_of_nat_digits_value [OF assms(1) ne this] p show ?thesis
    by (simp add: toString_def)
qed

lemma extractYear_loop_find:
  assumes "set ps \<subseteq> set yearPatterns"
  shows "extractYear_loop ps text =
     (case find (\<lambda>m. year_in_window (parseInt m)) (List.map_filter (regex_match text) ps) of
        None \<Rightarrow> ''Unknown'' | Some m \<Rightarrow> m)"
  using assms
proof (induction ps)
  case Nil
  then show ?case by (simp add: map_filter_simps)
next
  case (Cons p ps)
  show ?case
  proof (cases "regex_match text p")
    case None
    with Cons show ?thesis by (simp add: map_filter_simps)
  next
    case (Some m)
    have "list_all is_digit m \<and> length m = 4"
      using year_match_digits [OF Some] Cons.prems by simp
    then have "year_in_window (parseInt m) \<Longrightarrow> toString (parseInt m) = m"
      by (simp add: four_digits_window)
    with Some Cons show ?thesis
      by (simp add: map_filter_simps isYearInRange_toString Let_def)
  qed
qed

text \<open>
  The search of a pattern finds the leftmost occurrence of what the pattern describes.
\<close>

lemma regex_match_leftmost_occurrence:
  assumes link: "\<And>pre post m. match_here p (unit_before None pre) post = Some m \<longleftrightarrow>
      (\<exists>rest. post = m @ rest \<and> P pre m rest)"
  shows "regex_match str p = Some m \<longleftrightarrow> leftmost_occurrence P str m"
proof
  assume "regex_match str p = Some m"
  then obtain pre post where s: "str = pre @ post"
    and mh: "match_here p (unit_before None pre) post = Some m"
    and least: "\<forall>pre' post'. str = pre' @ post' \<and> length pre' < length pre \<longrightarrow>
        match_here p (unit_before None pre') post' = None"
    unfolding regex_match_def regex_search_leftmost by blast
  from mh obtain rest where r: "post = m @ rest" "P pre m rest" using link by blast
  have "length pre \<le> length pre'" if a: "str = pre' @ m' @ post'" "P pre' m' post'"
    for pre' m' post'
  proof (rule ccontr)
    assume "\<not> length pre \<le> length pre'"
    then have "match_here p (unit_before None pre') (m' @ post') = None"
      using least a(1) by simp
    moreover have "match_here p (unit_before None pre') (m' @ post') = Some m'"
      using link a(2) by blast
    ultimately show False by simp
  qed
  then show "leftmost_occurrence P str m"
    unfolding leftmost_occurrence_def using s r by blast
next
  assume "leftmost_occurrence P str m"
  then obtain pre post where s: "str = pre @ m @ post" and p: "P pre m post"
    and least: "\<forall>pre' m' post'. str = pre' @ m' @ post' \<and> P pre' m' post'
        \<longrightarrow> length pre \<le> length pre'"
    unfolding leftmost_occurrence_def by blast
  have mh: "match_here p (unit_before None pre) (m @ post) = Some m"
    using link p by blast
  have "match_here p (unit_before None pre') post' = None"
    if a: "str = pre' @ post'" "length pre' < length pre" for pre' post'
  proof (cases "match_here p (unit_before None pre') post'")
    case None
    then show ?thesis .
  next
    case (Some m')
    then obtain rest where "post' = m' @ rest" "P pre' m' rest" using link by blast
    then have "length pre \<le> length pre'" using least a(1) by blast
    then show ?thesis using a(2) by simp
  qed
  then show "regex_match str p = Some m"
    unfolding regex_match_def regex_search_leftmost using s mh by blast
qed

lemma word_at_unit_before: "word_at (unit_before None pre) \<longleftrightarrow> pre \<noteq> [] \<and> is_word (last pre)"
  by (simp add: word_at_def unit_before_def)

lemma word_at_next_unit: "word_at (next_unit rest) \<longleftrightarrow> rest \<noteq> [] \<and> is_word (hd rest)"
  by (cases rest) (simp_all add: word_at_def next_unit_def)

lemma regex_match_four_digit_word:
  "regex_match str [WordBoundary, Digit, Digit, Digit, Digit, WordBoundary] = Some m
     \<longleftrightarrow> leftmost_occurrence four_digit_word str m"
proof (rule regex_match_leftmost_occurrence)
  fix pre post m
  show "match_here [WordBoundary, Digit, Digit, Digit, Digit, WordBoundary]
          (unit_before None pre) post = Some m
      \<longleftrightarrow> (\<exists>rest. post = m @ rest \<and> four_digit_word pre m rest)"
    unfolding four_digits_match four_digit_word_def word_at_unit_before word_at_next_unit
    by blast
qed

lemma twenty_shape:
  "(\<exists>a b. m = [CHR ''2'', CHR ''0'', a, b] \<and> is_digit a \<and> is_digit b)
     \<longleftrightarrow> length m = 4 \<and> list_all is_digit m \<and> prefix ''20'' m"
proof
  assume "\<exists>a b. m = [CHR ''2'', CHR ''0'', a, b] \<and> is_digit a \<and> is_digit b"
  then obtain a b where m: "m = [CHR ''2'', CHR ''0'', a, b]" and d: "is_digit a" "is_digit b"
    by blast
  have "is_digit CHR ''2''" "is_digit CHR ''0''" by code_simp+
  then show "length m = 4 \<and> list_all is_digit m \<and> prefix ''20'' m"
    using m d by simp
next
  assume h: "length m = 4 \<and> list_all is_digit m \<and> prefix ''20'' m"
  then obtain zs where z: "m = ''20'' @ zs" by (auto simp: prefix_def)
  then have "length zs = 2" using h by simp
  then obtain a b where "zs = [a, b]"
    by (cases zs; cases "tl zs") auto
  then show "\<exists>a b. m = [CHR ''2'', CHR ''0'', a, b] \<and> is_digit a \<and> is_digit b"
    using z h by simp
qed

lemma regex_match_twenty_word:
  "regex_match str [WordBoundary, Lit CHR ''2'', Lit CHR ''0'', Digit, Digit, WordBoundary]
       = Some m
     \<longleftrightarrow> leftmost_occurrence twenty_word str m"
proof (rule regex_match_leftmost_occurrence)
  fix pre post m
  show "match_here [WordBoundary, Lit CHR ''2'', Lit CHR ''0'', Digit, Digit, WordBoundary]
          (unit_before None pre) post = Some m
      \<longleftrightarrow> (\<exists>rest. post = m @ rest \<and> twenty_word pre m rest)"
    unfolding twenty_match twenty_word_def four_digit_word_def
      word_at_unit_before word_at_next_unit
    using twenty_shape [of m] by blast
qed

lemma four_digits_value:
  assumes "list_all is_digit [a, b, c, d]"
  shows "parseInt [a, b, c, d] =
     Some (int (1000 * (code_unit a - 48) + 100 * (code_unit b - 48)
              + 10 * (code_unit c - 48) + (code_unit d - 48)))"
proof -
  have dv: "digit_value x = code_unit x - 48" if "is_digit x" for x
    using that by (simp add: is_digit_def digit_value_def Let_def)
  have "parseInt [a, b, c, d] = Some (int (digits_value 10 [a, b, c, d]))"
    using assms by (intro parseInt_digits) simp_all
  moreover have "digits_value 10 [a, b, c, d] =
      1000 * (code_unit a - 48) + 100 * (code_unit b - 48)
        + 10 * (code_unit c - 48) + (code_unit d - 48)"
    using assms by (simp add: digits_value_def dv)
  ultimately show ?thesis by simp
qed

lemma window_twenty:
  assumes "length m = 4" "list_all is_digit m" "year_in_window (parseInt m)"
  shows "prefix ''20'' m"
proof -
  obtain a b c d where m: "m = [a, b, c, d]"
    using assms(1) by (auto simp: length_Suc_conv numeral_eq_Suc)
  have d: "is_digit a" "is_digit b" "is_digit c" "is_digit d" using assms(2) m by simp_all
  define A B C D where "A = code_unit a - 48" and "B = code_unit b - 48"
    and "C = code_unit c - 48" and "D = code_unit d - 48"
  have r: "A < 10" "B < 10" "C < 10" "D < 10"
    using d by (auto simp: is_digit_def A_def B_def C_def D_def)
  have v: "parseInt m = Some (int (1000 * A + 100 * B + 10 * C + D))"
    using four_digits_value [of a b c d] assms(2) m by (simp add: A_def B_def C_def D_def)
  have w: "2000 \<le> 1000 * A + 100 * B + 10 * C + D" "1000 * A + 100 * B + 10 * C + D \<le> 2025"
    using assms(3) unfolding v year_in_window_def by simp_all
  have "2 \<le> A" using w(1) r by linarith
  moreover have "A \<le> 2" using w(2) by linarith
  ultimately have A2: "A = 2" by simp
  have "B = 0" using w(2) A2 by linarith
  then have "A = 2 \<and> B = 0" using A2 by simp
  then have "code_unit a = 50" "code_unit b = 48"
    using d(1,2) by (auto simp: is_digit_def A_def B_def)
  then have "char_of (code_unit a) = char_of (50::nat)" "char_of (code_unit b) = char_of (48::nat)"
    by simp_all
  then have "a = char_of (50::nat)" "b = char_of (48::nat)"
    by (simp_all add: char_of_code_unit)
  moreover have "char_of (50::nat) = CHR ''2''" "char_of (48::nat) = CHR ''0''" by code_simp+
  ultimately show ?thesis using m by simp
qed

lemma leftmost_year_generic_is_twenty:
  assumes "leftmost_year four_digit_word str m"
  shows "leftmost_year twenty_word str m"
proof -
  from assms obtain pre post where s: "str = pre @ m @ post" and p: "four_digit_word pre m post"
    and least: "\<forall>pre' m' post'. str = pre' @ m' @ post' \<and> four_digit_word pre' m' post'
        \<longrightarrow> length pre \<le> length pre'"
    and w: "year_in_window (parseInt m)"
    unfolding leftmost_year_def leftmost_occurrence_def by blast
  have "prefix ''20'' m" using p w by (simp add: four_digit_word_def window_twenty)
  then have "twenty_word pre m post" using p by (simp add: twenty_word_def)
  moreover have "\<forall>pre' m' post'. str = pre' @ m' @ post' \<and> twenty_word pre' m' post'
        \<longrightarrow> length pre \<le> length pre'"
    using least unfolding twenty_word_def by blast
  ultimately show ?thesis
    unfolding leftmost_year_def leftmost_occurrence_def using s w by blast
qed

lemma extractYear_leftmost_twenty:
  "extractYear str =
     (case regex_match str [WordBoundary, Lit CHR ''2'', Lit CHR ''0'', Digit, Digit, WordBoundary]
      of None \<Rightarrow> ''Unknown''
       | Some m \<Rightarrow> if year_in_window (parseInt m) then m else ''Unknown'')"
proof -
  let ?p20 = "[WordBoundary, Lit CHR ''2'', Lit CHR ''0'', Digit, Digit, WordBoundary]"
  let ?p4 = "[WordBoundary, Digit, Digit, Digit, Digit, WordBoundary]"
  have e: "extractYear str =
     (case find (\<lambda>m. year_in_window (parseInt m)) (List.map_filter (regex_match str) [?p20, ?p4])
      of None \<Rightarrow> ''Unknown'' | Some m \<Rightarrow> m)"
    unfolding extractYear_def
    using extractYear_loop_find [of yearPatterns str] by (simp add: yearPatterns_def)
  have dead: "regex_match str ?p20 = Some m"
    if "regex_match str ?p4 = Some m" "year_in_window (parseInt m)" for m
    using that leftmost_year_generic_is_twenty [of str m]
    by (simp add: regex_match_twenty_word regex_match_four_digit_word leftmost_year_def)
  show ?thesis
  proof (cases "regex_match str ?p4")
    case None
    then show ?thesis unfolding e by (simp add: List.map_filter_simps split: option.splits)
  next
    case (Some m4)
    show ?thesis
    proof (cases "year_in_window (parseInt m4)")
      case True
      then have "regex_match str ?p20 = Some m4" using dead Some by blast
      then show ?thesis unfolding e using Some True by (simp add: List.map_filter_simps)
    next
      case False
      then show ?thesis unfolding e using Some
        by (simp add: List.map_filter_simps split: option.splits)
    qed
  qed
qed

text \<open>
  Claim C5, as it holds. The two patterns are tried in order, the one for \<open>20xx\<close> first,
  each once: a pattern contributes its leftmost occurrence in the text only, a run of
  exactly four digits with a word boundary on both sides (beginning with \<open>20\<close> for the
  first pattern). The result is the first of these at most two matches whose integer
  value lies in \<open>[2000, 2025]\<close>, or \<open>Unknown\<close> when there is none; the value of four digits
  is their decimal value. Since a four-digit word in the window begins with \<open>20\<close>, the
  result is the leftmost twenty-word when its value is in the window and \<open>Unknown\<close>
  otherwise; the second pattern never adds a year. The four sample texts give \<open>2015\<close>,
  \<open>Unknown\<close>, \<open>Unknown\<close> and \<open>Unknown\<close>; digits glued to a letter, to an underscore or to a
  fifth digit are not a year, digits next to punctuation are.
\<close>

theorem extractYear_leftmost_word:
  "(regex_match str (yearPatterns ! 0) = Some m \<longleftrightarrow> leftmost_occurrence twenty_word str m)
   \<and> (regex_match str (yearPatterns ! 1) = Some m
        \<longleftrightarrow> leftmost_occurrence four_digit_word str m)
   \<and> length yearPatterns = 2
   \<and> extractYear str =
       (case find (\<lambda>m. year_in_window (parseInt m)) (year_candidates str) of
          None \<Rightarrow> ''Unknown'' | Some m \<Rightarrow> m)
   \<and> (leftmost_year twenty_word str m \<longrightarrow> extractYear str = m)
   \<and> ((\<forall>m'. \<not> leftmost_year twenty_word str m') \<longrightarrow> extractYear str = ''Unknown'')
   \<and> (leftmost_year four_digit_word str m \<longrightarrow> leftmost_year twenty_word str m)
   \<and> (list_all is_digit [a, b, c, d] \<longrightarrow>
        parseInt [a, b, c, d] =
          Some (int (1000 * (code_unit a - 48) + 100 * (code_unit b - 48)
                   + 10 * (code_unit c - 48) + (code_unit d - 48))))
   \<and> extractYear ''Published 2015'' = ''2015''
   \<and> extractYear ''copyright 1998'' = ''Unknown''
   \<and> extractYear ''no digits here'' = ''Unknown''
   \<and> extractYear ''issue 2030 retro'' = ''Unknown''
   \<and> extractYear ''x2015 2015_ 20155'' = ''Unknown''
   \<and> extractYear ''(2015) 2016'' = ''2015''
   \<and> extractYear ''1999-12-31, renewed 2004'' = ''2004''"
proof -
  let ?p20 = "[WordBoundary, Lit CHR ''2'', Lit CHR ''0'', Digit, Digit, WordBoundary]"
  have c1: "regex_match str (yearPatterns ! 0) = Some m
      \<longleftrightarrow> leftmost_occurrence twenty_word str m"
    by (simp add: yearPatterns_def regex_match_twenty_word)
  have c2: "regex_match str (yearPatterns ! 1) = Some m
      \<longleftrightarrow> leftmost_occurrence four_digit_word str m"
    by (simp add: yearPatterns_def regex_match_four_digit_word)
  have c3: "length yearPatterns = 2" by (simp add: yearPatterns_def)
  have c4: "extractYear str =
       (case find (\<lambda>m. year_in_window (parseInt m)) (year_candidates str) of
          None \<Rightarrow> ''Unknown'' | Some m \<Rightarrow> m)"
    unfolding extractYear_def year_candidates_def by (rule extractYear_loop_find) simp
  have c5: "leftmost_year twenty_word str m \<longrightarrow> extractYear str = m"
    by (simp add: extractYear_leftmost_twenty leftmost_year_def
        regex_match_twenty_word [symmetric])
  have c6: "(\<forall>m'. \<not> leftmost_year twenty_word str m') \<longrightarrow> extractYear str = ''Unknown''"
    by (cases "regex_match str ?p20")
      (auto simp: extractYear_leftmost_twenty leftmost_year_def
        regex_match_twenty_word [symmetric])
  have c7: "leftmost_year four_digit_word str m \<longrightarrow> leftmost_year twenty_word str m"
    using leftmost_year_generic_is_twenty by blast
  have c8: "list_all is_digit [a, b, c, d] \<longrightarrow>
        parseInt [a, b, c, d] =
          Some (int (1000 * (code_unit a - 48) + 100 * (code_unit b - 48)
                   + 10 * (code_unit c - 48) + (code_unit d - 48)))"
    using four_digits_value by blast
  have e1: "extractYear ''Published 2015'' = ''2015''" by code_simp
  have e2: "extractYear ''copyright 1998'' = ''Unknown''" by code_simp
  have e3: "extractYear ''no digits here'' = ''Unknown''" by code_simp
  have e4: "extractYear ''issue 2030 retro'' = ''Unknown''" by code_simp
  have e5: "extractYear ''x2015 2015_ 20155'' = ''Unknown''" by code_simp
  have e6: "extractYear ''(2015) 2016'' = ''2015''" by code_simp
  have e7: "extractYear ''1999-12-31, renewed 2004'' = ''2004''" by code_simp
  show ?thesis
    by (intro conjI c1 c2 c3 c4 c5 c6 c7 c8 e1 e2 e3 e4 e5 e6 e7)
qed

theorem extractYear_leftmost_word_witness:
  "leftmost_year twenty_word ''Published 2015'' ''2015''
   \<and> extractYear ''Published 2015'' = ''2015''
   \<and> list_all is_digit ''2015''
   \<and> parseInt ''2015'' = Some 2015"
proof -
  note t = extractYear_leftmost_word [of "''Published 2015''" "''2015''"
      "CHR ''2''" "CHR ''0''" "CHR ''1''" "CHR ''5''"]
  have r: "regex_match ''Published 2015'' (yearPatterns ! 0) = Some ''2015''" by code_simp
  have d: "list_all is_digit ''2015''" by code_simp
  have u: "code_unit CHR ''2'' = 50" "code_unit CHR ''0'' = 48" "code_unit CHR ''1'' = 49"
    "code_unit CHR ''5'' = 53" by code_simp+
  note v = mp [OF t [THEN conjunct2, THEN conjunct2, THEN conjunct2, THEN conjunct2,
        THEN conjunct2, THEN conjunct2, THEN conjunct2, THEN conjunct1] d]
  have p: "parseInt ''2015'' = Some 2015"
    unfolding v u by simp
  have l: "leftmost_occurrence twenty_word ''Published 2015'' ''2015''"
    by (rule iffD1 [OF t [THEN conjunct1] r])
  have w: "year_in_window (parseInt ''2015'')"
    unfolding p by (simp add: year_in_window_def)
  have y: "leftmost_year twenty_word ''Published 2015'' ''2015''"
    unfolding leftmost_year_def by (rule conjI [OF l w])
  have e: "extractYear ''Published 2015'' = ''2015''"
    by (rule mp [OF t [THEN conjunct2, THEN conjunct2, THEN conjunct2, THEN conjunct2,
        THEN conjunct1] y])
  show ?thesis by (intro conjI y e d p)
qed

text \<open>
  The claim as stated, the first match in the window over the whole text, fails: in
  \<open>2030 2015\<close> the word \<open>2015\<close> is an occurrence of the first pattern with a value in the
  window, but the pattern contributes its leftmost occurrence \<open>2030\<close>, which is outside.
\<close>

theorem later_year_not_found:
  "extractYear ''2030 2015'' = ''Unknown''
   \<and> ''2030 2015'' = ''2030 '' @ ''2015'' @ ''''
   \<and> twenty_word ''2030 '' ''2015'' ''''
   \<and> year_in_window (parseInt ''2015'')
   \<and> leftmost_occurrence twenty_word ''2030 2015'' ''2030''
   \<and> \<not> year_in_window (parseInt ''2030'')"
proof -
  have a: "extractYear ''2030 2015'' = ''Unknown''" by code_simp
  have b: "''2030 2015'' = ''2030 '' @ ''2015'' @ ''''" by simp
  have c: "twenty_word ''2030 '' ''2015'' ''''" by code_simp
  have d: "year_in_window (parseInt ''2015'')" by code_simp
  have r: "regex_match ''2030 2015''
      [WordBoundary, Lit CHR ''2'', Lit CHR ''0'', Digit, Digit, WordBoundary] = Some ''2030''"
    by code_simp
  have e: "leftmost_occurrence twenty_word ''2030 2015'' ''2030''"
    using r by (simp only: regex_match_twenty_word)
  have f: "\<not> year_in_window (parseInt ''2030'')" by code_simp
  show ?thesis by (intro conjI a b c d e f)
qed

section \<open>Identity verification\<close>

lemma verifyMagazineIdentity_verify_with:
  "verifyMagazineIdentity target cand
     = verify_with toLowerCase (\<lambda>c. is_word c \<or> is_space c) target cand"
  by (simp add: verifyMagazineIdentity_def verify_with_def clean_def Let_def
      string_includes_sublist)

lemma verify_with_sublist:
  "verify_with lower keep target cand
     = (cand \<noteq> [] \<and> sublist (filter keep (lower target)) (filter keep (lower cand)))"
  by (auto simp: verify_with_def Let_def)

lemma unit_in_list:
  assumes "set ns \<subseteq> {..<256}"
  shows "code_unit c \<in> set ns \<longleftrightarrow> c \<in> set (map char_of ns)"
proof
  assume "code_unit c \<in> set ns"
  then have "char_of (code_unit c) \<in> set (map char_of ns)" by (simp only: set_map) (rule imageI)
  then show "c \<in> set (map char_of ns)" by (simp only: char_of_code_unit)
next
  assume "c \<in> set (map char_of ns)"
  then obtain n where n: "n \<in> set ns" "c = char_of n" by auto
  then have "code_unit c = n" using assms by (auto simp: code_unit_char_of)
  then show "code_unit c \<in> set ns" using n(1) by simp
qed

lemma is_word_set:
  "is_word c \<longleftrightarrow>
     c \<in> set ''0123456789ABCDEFGHIJKLMNOPQRSTUVWXYZ_abcdefghijklmnopqrstuvwxyz''"
proof -
  let ?ns = "[48..<58] @ [65..<91] @ [95] @ [97..<123] :: nat list"
  have e: "map char_of ?ns
      = ''0123456789ABCDEFGHIJKLMNOPQRSTUVWXYZ_abcdefghijklmnopqrstuvwxyz''"
    by code_simp
  have s: "set ?ns = {48..<58} \<union> {65..<91} \<union> {95} \<union> {97..<123}"
    unfolding set_append set_upt by auto
  have "is_word c \<longleftrightarrow> code_unit c \<in> set ?ns"
    unfolding s by (auto simp: is_word_def Let_def)
  also have "\<dots> \<longleftrightarrow> c \<in> set (map char_of ?ns)"
    by (rule unit_in_list) (unfold s, auto)
  finally show ?thesis unfolding e .
qed

lemma upper_case_set:
  "65 \<le> code_unit c \<and> code_unit c \<le> 90 \<longleftrightarrow> c \<in> set ''ABCDEFGHIJKLMNOPQRSTUVWXYZ''"
proof -
  have e: "map char_of ([65..<91] :: nat list) = ''ABCDEFGHIJKLMNOPQRSTUVWXYZ''" by code_simp
  have "65 \<le> code_unit c \<and> code_unit c \<le> 90 \<longleftrightarrow> code_unit c \<in> set [65..<91]"
    unfolding set_upt by auto
  also have "\<dots> \<longleftrightarrow> c \<in> set (map char_of ([65..<91] :: nat list))"
    by (rule unit_in_list) (unfold set_upt, auto)
  finally show ?thesis unfolding e .
qed

lemma is_space_units: "is_space c \<longleftrightarrow> code_unit c \<in> {9, 10, 11, 12, 13, 32, 160}"
  by (auto simp: is_space_def Let_def)

lemma lower_char_ascii:
  assumes "code_unit c < 128" "c \<notin> set ''ABCDEFGHIJKLMNOPQRSTUVWXYZ''"
  shows "lower_char c = c"
proof -
  have "\<not> (65 \<le> code_unit c \<and> code_unit c \<le> 90)"
    unfolding upper_case_set by (rule assms(2))
  then show ?thesis using assms(1) by (auto simp: lower_char_def Let_def)
qed

lemma lower_char_upper_half:
  assumes "128 \<le> code_unit c"
  shows "128 \<le> code_unit (lower_char c)"
    and "is_space (lower_char c) \<longleftrightarrow> is_space c"
  using assms code_unit_less [of c]
  by (auto simp: lower_char_def Let_def code_unit_char_of is_space_def)

lemma verify_lowered:
  assumes "toLowerCase a = toLowerCase b" "toLowerCase s = toLowerCase t"
  shows "verifyMagazineIdentity s a = verifyMagazineIdentity t b"
proof -
  have "length a = length b" using assms(1) unfolding toLowerCase_def by (rule map_eq_imp_length_eq)
  then have "a = [] \<longleftrightarrow> b = []" by auto
  then show ?thesis using assms by (simp add: verifyMagazineIdentity_def clean_def)
qed

text \<open>
  Claim C6. Identity verification (the candidate title is the second argument here, the
  target name the first) lowercases both strings and strips every unit that is neither
  a word character nor white space; it accepts exactly when the candidate is not empty
  and its cleaned form equals the cleaned target or contains it as a substring. So a
  non-empty name matches itself, the empty candidate matches nothing, and the two sample
  titles are accepted and rejected as stated.

  Lowercasing sends \<open>A\<close> .. \<open>Z\<close> to \<open>a\<close> .. \<open>z\<close> and leaves every other unit below U+0080
  as it is; a unit from U+0080 on stays there, and is white space after lowercasing
  when it was before. The word characters are the digits, the letters \<open>A\<close> .. \<open>Z\<close> and
  \<open>a\<close> .. \<open>z\<close> and the underscore; white space is the units 9 to 13, 32 and 160. Only the
  lowercased forms of the two strings matter. White space is kept as it stands: it is
  neither removed nor collapsed, and a stripped unit leaves no gap. The characterisation
  holds over any alphabet, for any lowercasing and any class of kept units.
\<close>

theorem verifyMagazineIdentity_substring:
  "verifyMagazineIdentity target cand =
     (cand \<noteq> [] \<and> (clean cand = clean target \<or> sublist (clean target) (clean cand)))
   \<and> clean x = filter (\<lambda>c. is_word c \<or> is_space c) (map lower_char x)
   \<and> (x \<noteq> [] \<longrightarrow> verifyMagazineIdentity x x)
   \<and> \<not> verifyMagazineIdentity target ''''
   \<and> verifyMagazineIdentity ''Target Weekly'' ''The Target Weekly Issue 4''
   \<and> \<not> verifyMagazineIdentity ''Target Weekly'' ''Unrelated Journal''
   \<and> map lower_char ''ABCDEFGHIJKLMNOPQRSTUVWXYZ'' = ''abcdefghijklmnopqrstuvwxyz''
   \<and> (code_unit c < 128 \<and> c \<notin> set ''ABCDEFGHIJKLMNOPQRSTUVWXYZ'' \<longrightarrow> lower_char c = c)
   \<and> (128 \<le> code_unit c \<longrightarrow>
        128 \<le> code_unit (lower_char c) \<and> (is_space (lower_char c) \<longleftrightarrow> is_space c))
   \<and> (is_word c \<longleftrightarrow>
        c \<in> set ''0123456789ABCDEFGHIJKLMNOPQRSTUVWXYZ_abcdefghijklmnopqrstuvwxyz'')
   \<and> (is_space c \<longleftrightarrow> code_unit c \<in> {9, 10, 11, 12, 13, 32, 160})
   \<and> (toLowerCase a = toLowerCase b \<and> toLowerCase s = toLowerCase t \<longrightarrow>
        verifyMagazineIdentity s a = verifyMagazineIdentity t b)
   \<and> verifyMagazineIdentity target cand
        = verify_with toLowerCase (\<lambda>c. is_word c \<or> is_space c) target cand
   \<and> verify_with lower keep name other
        = (other \<noteq> [] \<and> sublist (filter keep (lower name)) (filter keep (lower other)))
   \<and> clean ''Widget_Monthly:  No. 7 (2015)!'' = ''widget_monthly  no 7 2015''
   \<and> verifyMagazineIdentity ''widget monthly'' ''WIDGET MONTHLY''
   \<and> verifyMagazineIdentity ''Target Weekly'' ''(target) weekly: issue 4''
   \<and> \<not> verifyMagazineIdentity ''Target Weekly'' ''TargetWeekly Issue 4''
   \<and> \<not> verifyMagazineIdentity ''Target Weekly'' ''Target  Weekly''
   \<and> \<not> verifyMagazineIdentity ''Target Weekly'' ''Target-Weekly''"
proof -
  have c1: "verifyMagazineIdentity target cand =
     (cand \<noteq> [] \<and> (clean cand = clean target \<or> sublist (clean target) (clean cand)))"
    by (simp add: verifyMagazineIdentity_def Let_def string_includes_sublist)
  have c2: "clean x = filter (\<lambda>c. is_word c \<or> is_space c) (map lower_char x)"
    by (simp add: clean_def toLowerCase_def)
  have c3: "x \<noteq> [] \<longrightarrow> verifyMagazineIdentity x x"
    by (simp add: verifyMagazineIdentity_def Let_def)
  have c4: "\<not> verifyMagazineIdentity target ''''"
    by (simp add: verifyMagazineIdentity_def)
  have e1: "verifyMagazineIdentity ''Target Weekly'' ''The Target Weekly Issue 4''" by code_simp
  have e2: "\<not> verifyMagazineIdentity ''Target Weekly'' ''Unrelated Journal''" by code_simp
  have p1: "map lower_char ''ABCDEFGHIJKLMNOPQRSTUVWXYZ'' = ''abcdefghijklmnopqrstuvwxyz''"
    by code_simp
  have p2: "code_unit c < 128 \<and> c \<notin> set ''ABCDEFGHIJKLMNOPQRSTUVWXYZ'' \<longrightarrow> lower_char c = c"
    by (rule impI) (rule lower_char_ascii, erule conjunct1, erule conjunct2)
  have p3: "128 \<le> code_unit c \<longrightarrow>
        128 \<le> code_unit (lower_char c) \<and> (is_space (lower_char c) \<longleftrightarrow> is_space c)"
    by (rule impI) (rule conjI, erule lower_char_upper_half(1), erule lower_char_upper_half(2))
  have p4: "is_word c \<longleftrightarrow>
        c \<in> set ''0123456789ABCDEFGHIJKLMNOPQRSTUVWXYZ_abcdefghijklmnopqrstuvwxyz''"
    by (rule is_word_set)
  have p5: "is_space c \<longleftrightarrow> code_unit c \<in> {9, 10, 11, 12, 13, 32, 160}"
    by (rule is_space_units)
  have g1: "toLowerCase a = toLowerCase b \<and> toLowerCase s = toLowerCase t \<longrightarrow>
        verifyMagazineIdentity s a = verifyMagazineIdentity t b"
    by (rule impI) (rule verify_lowered, erule conjunct1, erule conjunct2)
  have g2: "verifyMagazineIdentity target cand
        = verify_with toLowerCase (\<lambda>c. is_word c \<or> is_space c) target cand"
    by (rule verifyMagazineIdentity_verify_with)
  have g3: "verify_with lower keep name other
        = (other \<noteq> [] \<and> sublist (filter keep (lower name)) (filter keep (lower other)))"
    by (rule verify_with_sublist)
  have e3: "clean ''Widget_Monthly:  No. 7 (2015)!'' = ''widget_monthly  no 7 2015''"
    by code_simp
  have e4: "verifyMagazineIdentity ''widget monthly'' ''WIDGET MONTHLY''" by code_simp
  have e5: "verifyMagazineIdentity ''Target Weekly'' ''(target) weekly: issue 4''" by code_simp
  have e6: "\<not> verifyMagazineIdentity ''Target Weekly'' ''TargetWeekly Issue 4''" by code_simp
  have e7: "\<not> verifyMagazineIdentity ''Target Weekly'' ''Target  Weekly''" by code_simp
  have e8: "\<not> verifyMagazineIdentity ''Target Weekly'' ''Target-Weekly''" by code_simp
  show ?thesis
    by (intro conjI c1 c2 c3 c4 e1 e2 p1 p2 p3 p4 p5 g1 g2 g3 e3 e4 e5 e6 e7 e8)
qed

theorem verifyMagazineIdentity_substring_witness:
  "''Widget Monthly'' \<noteq> [] \<and> verifyMagazineIdentity ''Widget Monthly'' ''Widget Monthly''
   \<and> toLowerCase ''WIDGET Monthly'' = toLowerCase ''Widget Monthly''
   \<and> verifyMagazineIdentity ''Widget Monthly'' ''WIDGET Monthly''
   \<and> code_unit CHR ''!'' < 128 \<and> lower_char CHR ''!'' = CHR ''!''"
proof -
  note t = verifyMagazineIdentity_substring [of "''Widget Monthly''" "''Widget Monthly''"
      "''Widget Monthly''" "CHR ''!''" "''WIDGET Monthly''" "''Widget Monthly''"
      "''Widget Monthly''" "''Widget Monthly''"]
  have n: "''Widget Monthly'' \<noteq> []" by simp
  have v: "verifyMagazineIdentity ''Widget Monthly'' ''Widget Monthly''"
    by (rule mp [OF t [THEN conjunct2, THEN conjunct2, THEN conjunct1] n])
  have l: "toLowerCase ''WIDGET Monthly'' = toLowerCase ''Widget Monthly''" by code_simp
  have "verifyMagazineIdentity ''Widget Monthly'' ''WIDGET Monthly''
      = verifyMagazineIdentity ''Widget Monthly'' ''Widget Monthly''"
    by (rule mp [OF t [THEN conjunct2, THEN conjunct2, THEN conjunct2, THEN conjunct2,
        THEN conjunct2, THEN conjunct2, THEN conjunct2, THEN conjunct2, THEN conjunct2,
        THEN conjunct2, THEN conjunct2, THEN conjunct1] conjI [OF l refl]])
  then have w: "verifyMagazineIdentity ''Widget Monthly'' ''WIDGET Monthly''"
    using v by (rule ssubst)
  have u: "code_unit CHR ''!'' < 128" by code_simp
  have m: "CHR ''!'' \<notin> set ''ABCDEFGHIJKLMNOPQRSTUVWXYZ''" by code_simp
  have x: "lower_char CHR ''!'' = CHR ''!''"
    by (rule mp [OF t [THEN conjunct2, THEN conjunct2, THEN conjunct2, THEN conjunct2,
        THEN conjunct2, THEN conjunct2, THEN conjunct2, THEN conjunct1] conjI [OF u m]])
  show ?thesis by (intro conjI n v l w u x)
qed

text \<open>
  Claim C10. When the cleaned target name is empty, every non-empty candidate title is
  accepted, over any alphabet. The cleaned name is empty only if no unit of the name is
  a word character or white space.
\<close>

theorem verifyMagazineIdentity_empty_target:
  "(target \<noteq> [] \<and> clean target = [] \<and> cand \<noteq> [] \<longrightarrow> verifyMagazineIdentity target cand)
   \<and> (clean target = [] \<longrightarrow> (\<forall>c\<in>set target. \<not> is_word c \<and> \<not> is_space c))
   \<and> (other \<noteq> [] \<and> filter keep (lower name) = [] \<longrightarrow> verify_with lower keep name other)
   \<and> clean ''?!'' = []
   \<and> verifyMagazineIdentity ''?!'' ''Unrelated Journal''"
proof -
  have c1: "target \<noteq> [] \<and> clean target = [] \<and> cand \<noteq> [] \<longrightarrow> verifyMagazineIdentity target cand"
    by (auto simp: verifyMagazineIdentity_def Let_def string_includes_sublist)
  have c2: "clean target = [] \<longrightarrow> (\<forall>c\<in>set target. \<not> is_word c \<and> \<not> is_space c)"
    by (rule impI) (erule clean_empty)
  have c3: "other \<noteq> [] \<and> filter keep (lower name) = [] \<longrightarrow> verify_with lower keep name other"
    by (simp add: verify_with_sublist)
  have e1: "clean ''?!'' = []" by code_simp
  have e2: "verifyMagazineIdentity ''?!'' ''Unrelated Journal''" by code_simp
  show ?thesis by (intro conjI c1 c2 c3 e1 e2)
qed

theorem verifyMagazineIdentity_empty_target_witness:
  "''?!'' \<noteq> [] \<and> clean ''?!'' = [] \<and> ''Unrelated Journal'' \<noteq> []
   \<and> verifyMagazineIdentity ''?!'' ''Unrelated Journal''"
proof -
  note t = verifyMagazineIdentity_empty_target [of "''?!''" "''Unrelated Journal''"]
  have h: "clean ''?!'' = []" by code_simp
  have n: "''?!'' \<noteq> []" "''Unrelated Journal'' \<noteq> []" by simp_all
  have v: "verifyMagazineIdentity ''?!'' ''Unrelated Journal''"
    by (rule mp [OF t [THEN conjunct1] conjI [OF n(1) conjI [OF h n(2)]]])
  show ?thesis by (intro conjI n h v)
qed

section \<open>Deduplication\<close>

lemma dedup_filter_snoc:
  "dedup_filter seen (xs @ [r]) =
     dedup_filter seen xs @ (if url r \<in> seen \<union> url ` set xs then [] else [r])"
  by (induction xs arbitrary: seen) auto

lemma dedup_filter_urls: "url ` set (dedup_filter seen rs) = url ` set rs - seen"
  by (induction rs arbitrary: seen) auto

lemma dedup_filter_distinct: "distinct (map url (dedup_filter seen rs))"
  by (induction rs arbitrary: seen) (auto simp: dedup_filter_urls)

lemma distinct_count_one:
  "distinct (map f xs) \<Longrightarrow> x \<in> set xs \<Longrightarrow> length (filter (\<lambda>y. f y = f x) xs) = 1"
  by (induction xs) (auto simp: image_iff filter_empty_conv)

lemma deduplicateResults_count:
  assumes "a \<in> set rs"
  shows "length (filter (\<lambda>x. url x = url a) (deduplicateResults rs)) = 1"
proof -
  have "url a \<in> url ` set (deduplicateResults rs)"
    using assms by (simp add: deduplicateResults_def dedup_filter_urls)
  then obtain b where b: "b \<in> set (deduplicateResults rs)" "url b = url a" by auto
  have "distinct (map url (deduplicateResults rs))"
    by (simp add: deduplicateResults_def dedup_filter_distinct)
  from distinct_count_one [OF this b(1)] b(2) show ?thesis by simp
qed

text \<open>
  Claim C2. Deduplication scans the list from the left and keeps a record exactly when
  no earlier record of the list has its url; the urls of the output are pairwise
  distinct, and a list that holds two records with the same url and different titles
  yields exactly one record with that url.
\<close>

theorem deduplicateResults_first_seen:
  "deduplicateResults (xs @ [r]) =
     deduplicateResults xs @ (if url r \<in> url ` set xs then [] else [r])
   \<and> deduplicateResults [] = []
   \<and> distinct (map url (deduplicateResults rs))
   \<and> (a \<in> set rs \<and> b \<in> set rs \<and> url a = url b \<and> title a \<noteq> title b \<longrightarrow>
        length (filter (\<lambda>x. url x = url a) (deduplicateResults rs)) = 1)"
  by (simp add: deduplicateResults_count)
     (simp add: deduplicateResults_def dedup_filter_snoc dedup_filter_distinct)

theorem deduplicateResults_first_seen_witness:
  "\<lparr>source = ''Google'', title = ''Widget Monthly'', year = ''2012'', url = ''https://x.org/1'', description = ''''\<rparr>
     \<in> set [\<lparr>source = ''Google'', title = ''Widget Monthly'', year = ''2012'', url = ''https://x.org/1'', description = ''''\<rparr>,
            \<lparr>source = ''Bing'', title = ''Widget Monthly 12'', year = ''Unknown'', url = ''https://x.org/1'', description = ''''\<rparr>]
   \<and> title \<lparr>source = ''Google'', title = ''Widget Monthly'', year = ''2012'', url = ''https://x.org/1'', description = ''''\<rparr>
       \<noteq> title \<lparr>source = ''Bing'', title = ''Widget Monthly 12'', year = ''Unknown'', url = ''https://x.org/1'', description = ''''\<rparr>
   \<and> length (filter (\<lambda>x. url x = ''https://x.org/1'')
        (deduplicateResults
          [\<lparr>source = ''Google'', title = ''Widget Monthly'', year = ''2012'', url = ''https://x.org/1'', description = ''''\<rparr>,
           \<lparr>source = ''Bing'', title = ''Widget Monthly 12'', year = ''Unknown'', url = ''https://x.org/1'', description = ''''\<rparr>])) = 1"
  using deduplicateResults_first_seen
    [of "[]" "\<lparr>source = ''Google'', title = ''Widget Monthly'', year = ''2012'', url = ''https://x.org/1'', description = ''''\<rparr>"
        "[\<lparr>source = ''Google'', title = ''Widget Monthly'', year = ''2012'', url = ''https://x.org/1'', description = ''''\<rparr>,
          \<lparr>source = ''Bing'', title = ''Widget Monthly 12'', year = ''Unknown'', url = ''https://x.org/1'', description = ''''\<rparr>]"
        "\<lparr>source = ''Google'', title = ''Widget Monthly'', year = ''2012'', url = ''https://x.org/1'', description = ''''\<rparr>"
        "\<lparr>source = ''Bing'', title = ''Widget Monthly 12'', year = ''Unknown'', url = ''https://x.org/1'', description = ''''\<rparr>"]
  by simp

section \<open>What the iterating fetchers leave in the trace\<close>

lemma reddit_posts_trace: "trace (reddit_posts env name sub ps s) = trace s"
  by (induction ps arbitrary: s) (simp_all add: Let_def push_def)

lemma reddit_iteration_trace:
  "trace (reddit_iteration env name sub s) = trace s @ reddit_turn env sub"
  by (simp add: reddit_iteration_def try_catch_def reddit_try_def reddit_turn_def Let_def
      emit_def reddit_posts_trace split: sum.splits option.splits)

lemma reddit_loop_trace:
  "trace (reddit_loop env name subs s) = trace s @ concat (map (reddit_turn env) subs)"
  by (induction subs arbitrary: s) (simp_all add: reddit_iteration_trace)

lemma web_each_trace: "trace (web_each name engine page s) = trace s"
  by (induction page arbitrary: s) (simp_all add: Let_def push_def)

lemma web_iteration_trace:
  "trace (web_iteration env name engine s) = trace s @ web_turn env engine"
  by (simp add: web_iteration_def try_catch_def web_try_def web_turn_def Let_def
      emit_def web_each_trace split: sum.splits)

lemma web_loop_trace:
  "trace (web_loop env name engines s) = trace s @ concat (map (web_turn env) engines)"
  by (induction engines arbitrary: s) (simp_all add: web_iteration_trace)

lemma library_each_trace: "trace (snd (library_each env name lib page s)) = trace s"
  by (induction page arbitrary: s) (simp_all add: Let_def push_def split: sum.splits)

lemma library_each_outcome:
  "fst (library_each env name lib page s) = fst (library_each env name lib page start)"
proof (induction page arbitrary: s)
  case Nil
  then show ?case by simp
next
  case (Cons el page)
  show ?case
    using Cons.IH [of "push r s" for r] Cons.IH [of "push r start" for r] Cons.IH [of s]
    by (simp add: Let_def split: sum.splits)
qed

lemma library_iteration_trace:
  "trace (library_iteration env name lib s) = trace s @ library_turn env name lib"
proof (cases "get_html env (site_url lib)")
  case (Inl e)
  then show ?thesis
    by (simp add: library_iteration_def try_catch_def library_try_def library_turn_def Let_def
        emit_def)
next
  case (Inr page)
  obtain out s2 where run: "library_each env name lib page (emit (Request (site_url lib)) s) = (out, s2)"
    by (cases "library_each env name lib page (emit (Request (site_url lib)) s)")
  have t: "trace s2 = trace s @ [Request (site_url lib)]"
    using library_each_trace [of env name lib page "emit (Request (site_url lib)) s"] run
    by (simp add: emit_def)
  have o: "fst (library_each env name lib page start) = out"
    using library_each_outcome [of env name lib page "emit (Request (site_url lib)) s"] run
    by simp
  show ?thesis
    using Inr run t o
    by (cases out)
       (simp_all add: library_iteration_def try_catch_def library_try_def library_turn_def
        Let_def emit_def)
qed

lemma library_loop_trace:
  "trace (library_loop env name libs s) = trace s @ concat (map (library_turn env name) libs)"
  by (induction libs arbitrary: s) (simp_all add: library_iteration_trace)

lemma paced_turns:
  assumes "\<forall>x\<in>set xs. \<exists>u d. turn x = [Request u, Delay d]"
  shows "paced (concat (map turn xs))"
  using assms by (induction xs) auto

text \<open>
  Claim C9, as amended. In the social, the digital-library and the general-web fetcher
  the units are visited one after the other, in the fixed order of the list, and a turn
  leaves in the trace its request followed by the pacing delay when the turn ran to its
  end, or by the logged error and no delay when the request failed or the handling of
  the answer threw. So the trace is paced whenever every turn succeeds.
\<close>

theorem turns_sequential_delay_on_success:
  "snd (searchRedditArchives env name) = concat (map (reddit_turn env) subreddits)
   \<and> snd (searchDigitalLibraries env name) = concat (map (library_turn env name) libraries)
   \<and> snd (searchGeneralWeb env name) = concat (map (web_turn env) searchEngines)
   \<and> (list_all (\<lambda>sub. \<not> isl (get_reddit env (reddit_url sub))) subreddits \<longrightarrow>
        paced (snd (searchRedditArchives env name)))
   \<and> (list_all (\<lambda>lib. case get_html env (site_url lib) of
                           Inl e \<Rightarrow> False
                         | Inr page \<Rightarrow> \<not> isl (fst (library_each env name lib page start)))
          libraries \<longrightarrow>
        paced (snd (searchDigitalLibraries env name)))
   \<and> (list_all (\<lambda>engine. \<not> isl (get_html env (site_url engine))) searchEngines \<longrightarrow>
        paced (snd (searchGeneralWeb env name)))"
proof -
  have r: "snd (searchRedditArchives env name) = concat (map (reddit_turn env) subreddits)"
    by (simp add: searchRedditArchives_def Let_def reddit_loop_trace start_def)
  have l: "snd (searchDigitalLibraries env name) = concat (map (library_turn env name) libraries)"
    by (simp add: searchDigitalLibraries_def Let_def library_loop_trace start_def)
  have w: "snd (searchGeneralWeb env name) = concat (map (web_turn env) searchEngines)"
    by (simp add: searchGeneralWeb_def Let_def web_loop_trace start_def)
  have pr: "paced (concat (map (reddit_turn env) subreddits))"
    if "list_all (\<lambda>sub. \<not> isl (get_reddit env (reddit_url sub))) subreddits"
    using that
    by (intro paced_turns) (auto simp: list_all_iff reddit_turn_def split: sum.splits)
  have pl: "paced (concat (map (library_turn env name) libraries))"
    if "list_all (\<lambda>lib. case get_html env (site_url lib) of
                           Inl e \<Rightarrow> False
                         | Inr page \<Rightarrow> \<not> isl (fst (library_each env name lib page start)))
          libraries"
    using that
    by (intro paced_turns) (auto simp: list_all_iff library_turn_def split: sum.splits)
  have pw: "paced (concat (map (web_turn env) searchEngines))"
    if "list_all (\<lambda>engine. \<not> isl (get_html env (site_url engine))) searchEngines"
    using that
    by (intro paced_turns) (auto simp: list_all_iff web_turn_def split: sum.splits)
  show ?thesis using r l w pr pl pw by simp
qed

theorem turns_sequential_delay_on_success_witness:
  "list_all (\<lambda>sub. \<not> isl (get_reddit quiet (reddit_url sub))) subreddits
   \<and> paced (snd (searchRedditArchives quiet ''Widget Monthly''))
   \<and> list_all (\<lambda>lib. case get_html quiet (site_url lib) of
                         Inl e \<Rightarrow> False
                       | Inr page \<Rightarrow>
                           \<not> isl (fst (library_each quiet ''Widget Monthly'' lib page start)))
        libraries
   \<and> paced (snd (searchDigitalLibraries quiet ''Widget Monthly''))
   \<and> list_all (\<lambda>engine. \<not> isl (get_html quiet (site_url engine))) searchEngines
   \<and> paced (snd (searchGeneralWeb quiet ''Widget Monthly''))"
proof -
  have h:
    "list_all (\<lambda>sub. \<not> isl (get_reddit quiet (reddit_url sub))) subreddits"
    "list_all (\<lambda>lib. case get_html quiet (site_url lib) of
                         Inl e \<Rightarrow> False
                       | Inr page \<Rightarrow>
                           \<not> isl (fst (library_each quiet ''Widget Monthly'' lib page start)))
        libraries"
    "list_all (\<lambda>engine. \<not> isl (get_html quiet (site_url engine))) searchEngines"
    by (simp_all add: quiet_def subreddits_def libraries_def searchEngines_def)
  from turns_sequential_delay_on_success [of quiet "''Widget Monthly''"] h
  show ?thesis by blast
qed

theorem no_delay_after_failed_request:
  "snd (searchRedditArchives offline ''Widget Monthly'') =
     [Request ''https://www.reddit.com/r/magazines/search.json'',
      LogError ''Error searching Reddit magazines:'',
      Request ''https://www.reddit.com/r/archival/search.json'',
      LogError ''Error searching Reddit archival:'',
      Request ''https://www.reddit.com/r/vintageculture/search.json'',
      LogError ''Error searching Reddit vintageculture:'',
      Request ''https://www.reddit.com/r/OldSchoolCool/search.json'',
      LogError ''Error searching Reddit OldSchoolCool:'']
   \<and> \<not> paced (snd (searchRedditArchives offline ''Widget Monthly''))"
  by code_simp

section \<open>Failed requests\<close>

lemma reddit_iteration_failed:
  "get_reddit env (reddit_url sub) = Inl e \<Longrightarrow>
   results (reddit_iteration env name sub s) = results s"
  by (simp add: reddit_iteration_def try_catch_def reddit_try_def Let_def emit_def)

lemma reddit_loop_failed:
  "\<forall>sub\<in>set subs. isl (get_reddit env (reddit_url sub)) \<Longrightarrow>
   results (reddit_loop env name subs s) = results s"
  by (induction subs arbitrary: s) (auto simp: isl_def reddit_iteration_failed)

lemma web_iteration_failed:
  "get_html env (site_url engine) = Inl e \<Longrightarrow>
   results (web_iteration env name engine s) = results s"
  by (simp add: web_iteration_def try_catch_def web_try_def Let_def emit_def)

lemma web_loop_failed:
  "\<forall>engine\<in>set engines. isl (get_html env (site_url engine)) \<Longrightarrow>
   results (web_loop env name engines s) = results s"
  by (induction engines arbitrary: s) (auto simp: isl_def web_iteration_failed)

lemma library_iteration_failed:
  "get_html env (site_url lib) = Inl e \<Longrightarrow>
   results (library_iteration env name lib s) = results s"
  by (simp add: library_iteration_def try_catch_def library_try_def Let_def emit_def)

lemma library_loop_failed:
  "\<forall>lib\<in>set libs. isl (get_html env (site_url lib)) \<Longrightarrow>
   results (library_loop env name libs s) = results s"
  by (induction libs arbitrary: s) (auto simp: isl_def library_iteration_failed)

lemma fetchers_fulfil:
  "fst (searchArchiveOrg env name) = Inr (fulfilled (searchArchiveOrg env name))"
  "fst (searchGoogleBooks env name) = Inr (fulfilled (searchGoogleBooks env name))"
  "fst (searchRedditArchives env name) = Inr (fulfilled (searchRedditArchives env name))"
  "fst (searchDigitalLibraries env name) = Inr (fulfilled (searchDigitalLibraries env name))"
  "fst (searchGeneralWeb env name) = Inr (fulfilled (searchGeneralWeb env name))"
  by (simp_all add: fulfilled_def searchArchiveOrg_def searchGoogleBooks_def
      searchRedditArchives_def searchDigitalLibraries_def searchGeneralWeb_def Let_def
      split: sum.splits)

lemma searchAll_merge:
  "searchAll env name =
     Inr (deduplicateResults
       (fulfilled (searchArchiveOrg env name) @ fulfilled (searchGoogleBooks env name) @
        fulfilled (searchRedditArchives env name) @ fulfilled (searchDigitalLibraries env name) @
        fulfilled (searchGeneralWeb env name)))"
  by (simp add: searchAll_def searchMethods_def fetchers_fulfil)

lemma all_failed:
  "get_archive env ''https://archive.org/advancedsearch.php'' = Inl e \<Longrightarrow>
     fulfilled (searchArchiveOrg env name) = []"
  "get_books env ''https://www.googleapis.com/books/v1/volumes'' = Inl e \<Longrightarrow>
     fulfilled (searchGoogleBooks env name) = []"
  "list_all (\<lambda>sub. isl (get_reddit env (reddit_url sub))) subreddits \<Longrightarrow>
     fulfilled (searchRedditArchives env name) = []"
  "list_all (\<lambda>lib. isl (get_html env (site_url lib))) libraries \<Longrightarrow>
     fulfilled (searchDigitalLibraries env name) = []"
  "list_all (\<lambda>engine. isl (get_html env (site_url engine))) searchEngines \<Longrightarrow>
     fulfilled (searchGeneralWeb env name) = []"
  by (simp_all add: fulfilled_def searchArchiveOrg_def searchGoogleBooks_def
      searchRedditArchives_def searchDigitalLibraries_def searchGeneralWeb_def Let_def
      list_all_iff reddit_loop_failed library_loop_failed web_loop_failed start_def)

text \<open>
  Claim C1, as amended. Each of the five fetchers returns a sequence of records and
  never throws; a request that fails is caught and leaves no record for its unit (the
  whole fetcher for the two catalogue fetchers, one turn of the loop for the other
  three); \<^verbatim>\<open>searchAll\<close> returns the deduplicated concatenation of the five results, in
  the order of its list of methods, so when every request of one fetcher fails it
  returns the deduplicated results of the other four.
\<close>

theorem failed_requests_leave_the_rest:
  "(\<exists>rs. fst (searchArchiveOrg env name) = Inr rs)
   \<and> (\<exists>rs. fst (searchGoogleBooks env name) = Inr rs)
   \<and> (\<exists>rs. fst (searchRedditArchives env name) = Inr rs)
   \<and> (\<exists>rs. fst (searchDigitalLibraries env name) = Inr rs)
   \<and> (\<exists>rs. fst (searchGeneralWeb env name) = Inr rs)
   \<and> (get_archive env ''https://archive.org/advancedsearch.php'' = Inl e \<longrightarrow>
        fst (searchArchiveOrg env name) = Inr [])
   \<and> (get_books env ''https://www.googleapis.com/books/v1/volumes'' = Inl e \<longrightarrow>
        fst (searchGoogleBooks env name) = Inr [])
   \<and> (get_reddit env (reddit_url sub) = Inl e \<longrightarrow>
        results (reddit_iteration env name sub s) = results s)
   \<and> (get_html env (site_url site) = Inl e \<longrightarrow>
        results (library_iteration env name site s) = results s
        \<and> results (web_iteration env name site s) = results s)
   \<and> searchAll env name =
        Inr (deduplicateResults
          (fulfilled (searchArchiveOrg env name) @ fulfilled (searchGoogleBooks env name) @
           fulfilled (searchRedditArchives env name) @
           fulfilled (searchDigitalLibraries env name) @ fulfilled (searchGeneralWeb env name)))
   \<and> (get_archive env ''https://archive.org/advancedsearch.php'' = Inl e \<longrightarrow>
        searchAll env name =
          Inr (deduplicateResults
            (fulfilled (searchGoogleBooks env name) @ fulfilled (searchRedditArchives env name) @
             fulfilled (searchDigitalLibraries env name) @ fulfilled (searchGeneralWeb env name))))
   \<and> (get_books env ''https://www.googleapis.com/books/v1/volumes'' = Inl e \<longrightarrow>
        searchAll env name =
          Inr (deduplicateResults
            (fulfilled (searchArchiveOrg env name) @ fulfilled (searchRedditArchives env name) @
             fulfilled (searchDigitalLibraries env name) @ fulfilled (searchGeneralWeb env name))))
   \<and> (list_all (\<lambda>sub. isl (get_reddit env (reddit_url sub))) subreddits \<longrightarrow>
        searchAll env name =
          Inr (deduplicateResults
            (fulfilled (searchArchiveOrg env name) @ fulfilled (searchGoogleBooks env name) @
             fulfilled (searchDigitalLibraries env name) @ fulfilled (searchGeneralWeb env name))))
   \<and> (list_all (\<lambda>lib. isl (get_html env (site_url lib))) libraries \<longrightarrow>
        searchAll env name =
          Inr (deduplicateResults
            (fulfilled (searchArchiveOrg env name) @ fulfilled (searchGoogleBooks env name) @
             fulfilled (searchRedditArchives env name) @ fulfilled (searchGeneralWeb env name))))
   \<and> (list_all (\<lambda>engine. isl (get_html env (site_url engine))) searchEngines \<longrightarrow>
        searchAll env name =
          Inr (deduplicateResults
            (fulfilled (searchArchiveOrg env name) @ fulfilled (searchGoogleBooks env name) @
             fulfilled (searchRedditArchives env name) @
             fulfilled (searchDigitalLibraries env name))))"
proof -
  have never:
    "\<exists>rs. fst (searchArchiveOrg env name) = Inr rs"
    "\<exists>rs. fst (searchGoogleBooks env name) = Inr rs"
    "\<exists>rs. fst (searchRedditArchives env name) = Inr rs"
    "\<exists>rs. fst (searchDigitalLibraries env name) = Inr rs"
    "\<exists>rs. fst (searchGeneralWeb env name) = Inr rs"
    using fetchers_fulfil [of env name] by blast+
  have single:
    "get_archive env ''https://archive.org/advancedsearch.php'' = Inl e \<longrightarrow>
       fst (searchArchiveOrg env name) = Inr []"
    "get_books env ''https://www.googleapis.com/books/v1/volumes'' = Inl e \<longrightarrow>
       fst (searchGoogleBooks env name) = Inr []"
    by (simp_all add: searchArchiveOrg_def searchGoogleBooks_def)
  have turn:
    "get_reddit env (reddit_url sub) = Inl e \<longrightarrow>
       results (reddit_iteration env name sub s) = results s"
    "get_html env (site_url site) = Inl e \<longrightarrow>
       results (library_iteration env name site s) = results s
       \<and> results (web_iteration env name site s) = results s"
    by (simp_all add: reddit_iteration_failed library_iteration_failed web_iteration_failed)
  note merge = searchAll_merge [of env name]
  have rest:
    "get_archive env ''https://archive.org/advancedsearch.php'' = Inl e \<longrightarrow>
        searchAll env name =
          Inr (deduplicateResults
            (fulfilled (searchGoogleBooks env name) @ fulfilled (searchRedditArchives env name) @
             fulfilled (searchDigitalLibraries env name) @ fulfilled (searchGeneralWeb env name)))"
    "get_books env ''https://www.googleapis.com/books/v1/volumes'' = Inl e \<longrightarrow>
        searchAll env name =
          Inr (deduplicateResults
            (fulfilled (searchArchiveOrg env name) @ fulfilled (searchRedditArchives env name) @
             fulfilled (searchDigitalLibraries env name) @ fulfilled (searchGeneralWeb env name)))"
    "list_all (\<lambda>sub. isl (get_reddit env (reddit_url sub))) subreddits \<longrightarrow>
        searchAll env name =
          Inr (deduplicateResults
            (fulfilled (searchArchiveOrg env name) @ fulfilled (searchGoogleBooks env name) @
             fulfilled (searchDigitalLibraries env name) @ fulfilled (searchGeneralWeb env name)))"
    "list_all (\<lambda>lib. isl (get_html env (site_url lib))) libraries \<longrightarrow>
        searchAll env name =
          Inr (deduplicateResults
            (fulfilled (searchArchiveOrg env name) @ fulfilled (searchGoogleBooks env name) @
             fulfilled (searchRedditArchives env name) @ fulfilled (searchGeneralWeb env name)))"
    "list_all (\<lambda>engine. isl (get_html env (site_url engine))) searchEngines \<longrightarrow>
        searchAll env name =
          Inr (deduplicateResults
            (fulfilled (searchArchiveOrg env name) @ fulfilled (searchGoogleBooks env name) @
             fulfilled (searchRedditArchives env name) @
             fulfilled (searchDigitalLibraries env name)))"
    by (simp_all add: merge all_failed)
  show ?thesis
    using never single turn merge rest by blast
qed

theorem failed_requests_leave_the_rest_witness:
  "get_archive offline ''https://archive.org/advancedsearch.php'' = Inl NetworkError
   \<and> get_books offline ''https://www.googleapis.com/books/v1/volumes'' = Inl NetworkError
   \<and> get_reddit offline (reddit_url ''magazines'') = Inl NetworkError
   \<and> get_html offline ''https://dp.la/search'' = Inl NetworkError
   \<and> list_all (\<lambda>sub. isl (get_reddit offline (reddit_url sub))) subreddits
   \<and> list_all (\<lambda>lib. isl (get_html offline (site_url lib))) libraries
   \<and> list_all (\<lambda>engine. isl (get_html offline (site_url engine))) searchEngines
   \<and> fst (searchArchiveOrg offline ''Widget Monthly'') = Inr []
   \<and> fst (searchGoogleBooks offline ''Widget Monthly'') = Inr []
   \<and> searchAll offline ''Widget Monthly'' = Inr []
   \<and> list_all (\<lambda>sub. isl (get_reddit widget_env (reddit_url sub))) subreddits
   \<and> searchAll widget_env ''Widget Monthly'' =
       Inr [\<lparr>source = ''archive.org'', title = ''Widget Monthly'', year = ''2012'',
             url = ''https://archive.org/details/wm12'', description = ''''\<rparr>]"
proof -
  let ?dpla = "\<lparr>site_name = ''Digital Public Library of America'',
    site_url = ''https://dp.la/search''\<rparr>"
  have off:
    "get_archive offline ''https://archive.org/advancedsearch.php'' = Inl NetworkError"
    "get_books offline ''https://www.googleapis.com/books/v1/volumes'' = Inl NetworkError"
    "get_reddit offline (reddit_url ''magazines'') = Inl NetworkError"
    "get_html offline ''https://dp.la/search'' = Inl NetworkError"
    by (simp_all add: offline_def)
  have all:
    "list_all (\<lambda>sub. isl (get_reddit offline (reddit_url sub))) subreddits"
    "list_all (\<lambda>lib. isl (get_html offline (site_url lib))) libraries"
    "list_all (\<lambda>engine. isl (get_html offline (site_url engine))) searchEngines"
    by (simp_all add: offline_def subreddits_def libraries_def searchEngines_def)
  have h: "list_all (\<lambda>sub. isl (get_reddit widget_env (reddit_url sub))) subreddits"
    by (simp add: widget_env_def offline_def subreddits_def)
  note at_offline = failed_requests_leave_the_rest
    [of offline "''Widget Monthly''" NetworkError "''magazines''" start ?dpla]
  from at_offline off(1) have a: "fst (searchArchiveOrg offline ''Widget Monthly'') = Inr []"
    by blast
  from at_offline off(2) have b: "fst (searchGoogleBooks offline ''Widget Monthly'') = Inr []"
    by blast
  from at_offline off(1)
  have "searchAll offline ''Widget Monthly'' =
     Inr (deduplicateResults
      (fulfilled (searchGoogleBooks offline ''Widget Monthly'') @
       fulfilled (searchRedditArchives offline ''Widget Monthly'') @
       fulfilled (searchDigitalLibraries offline ''Widget Monthly'') @
       fulfilled (searchGeneralWeb offline ''Widget Monthly'')))"
    by blast
  moreover have "deduplicateResults
      (fulfilled (searchGoogleBooks offline ''Widget Monthly'') @
       fulfilled (searchRedditArchives offline ''Widget Monthly'') @
       fulfilled (searchDigitalLibraries offline ''Widget Monthly'') @
       fulfilled (searchGeneralWeb offline ''Widget Monthly'')) = []"
    by code_simp
  ultimately have c: "searchAll offline ''Widget Monthly'' = Inr []" by simp
  from failed_requests_leave_the_rest [of widget_env "''Widget Monthly''"] h
  have "searchAll widget_env ''Widget Monthly'' =
     Inr (deduplicateResults
      (fulfilled (searchArchiveOrg widget_env ''Widget Monthly'') @
       fulfilled (searchGoogleBooks widget_env ''Widget Monthly'') @
       fulfilled (searchDigitalLibraries widget_env ''Widget Monthly'') @
       fulfilled (searchGeneralWeb widget_env ''Widget Monthly'')))"
    by blast
  moreover have "deduplicateResults
      (fulfilled (searchArchiveOrg widget_env ''Widget Monthly'') @
       fulfilled (searchGoogleBooks widget_env ''Widget Monthly'') @
       fulfilled (searchDigitalLibraries widget_env ''Widget Monthly'') @
       fulfilled (searchGeneralWeb widget_env ''Widget Monthly'')) =
     [\<lparr>source = ''archive.org'', title = ''Widget Monthly'', year = ''2012'',
       url = ''https://archive.org/details/wm12'', description = ''''\<rparr>]"
    by code_simp
  ultimately have d: "searchAll widget_env ''Widget Monthly'' =
       Inr [\<lparr>source = ''archive.org'', title = ''Widget Monthly'', year = ''2012'',
             url = ''https://archive.org/details/wm12'', description = ''''\<rparr>]"
    by simp
  show ?thesis using off all a b c h d by simp
qed

theorem failed_unit_keeps_records:
  "library_iteration broken_link ''Widget Monthly''
      \<lparr>site_name = ''Digital Public Library of America'', site_url = ''https://dp.la/search''\<rparr>
      start =
     \<lparr>results = [\<lparr>source = ''Digital Public Library of America'', title = ''Widget Monthly 3'',
                   year = ''2011'', url = ''https://dp.la/item/1'', description = ''''\<rparr>],
      trace = [Request ''https://dp.la/search'',
               LogError ''Error searching Digital Public Library of America:'']\<rparr>
   \<and> fst (searchDigitalLibraries broken_link ''Widget Monthly'') =
       Inr [\<lparr>source = ''Digital Public Library of America'', title = ''Widget Monthly 3'',
             year = ''2011'', url = ''https://dp.la/item/1'', description = ''''\<rparr>]"
  by code_simp

section \<open>The records the fetchers emit\<close>




lemma archive_docs_map:
  "archive_docs name ds rs =
     rs @ map archive_record (filter (\<lambda>item. verifyMagazineIdentity name (doc_title item)) ds)"
  by (induction ds arbitrary: rs) simp_all

lemma books_items_map:
  "books_items name its rs =
     rs @ map books_record (filter (books_keeps name) (List.map_filter volumeInfo its))"
  by (induction its arbitrary: rs) (simp_all add: map_filter_simps split: option.splits)



lemma reddit_posts_results:
  "results (reddit_posts env name sub ps s) =
     results s @ map (reddit_record env sub)
       (filter (\<lambda>p. verifyMagazineIdentity name (post_title p)) (map post_data ps))"
  by (induction ps arbitrary: s) (simp_all add: Let_def push_def)




lemma web_each_results:
  "results (web_each name engine page s) =
     results s @ map (web_record engine) (filter (web_keeps name) page)"
  by (induction page arbitrary: s) (simp_all add: push_def)








section \<open>Years and addresses of the emitted records\<close>

lemma absolute_https: "is_absolute_url (''https://'' @ rest)"
proof -
  have "list_ex is_alpha (take 1 ''https'')" "list_all is_scheme_char ''https''"
    by code_simp+
  then show ?thesis by (simp add: is_absolute_url_def)
qed


text \<open>
  The records of each fetcher, in order, from what the answers hold. For the libraries
  the records of a page are those pushed before the first link that does not resolve.
\<close>

lemma archive_exact:
  "fulfilled (searchArchiveOrg env name) =
     map archive_record
       (filter (\<lambda>item. verifyMagazineIdentity name (doc_title item)) (archive_docs_of env))"
  by (simp add: fulfilled_def searchArchiveOrg_def Let_def archive_results_def archive_docs_map
      archive_docs_of_def split: sum.splits option.splits)

lemma books_exact:
  "fulfilled (searchGoogleBooks env name) =
     map books_record (filter (books_keeps name) (books_volumes_of env))"
  by (simp add: fulfilled_def searchGoogleBooks_def Let_def books_results_def books_items_map
      books_volumes_of_def split: sum.splits option.splits)

lemma reddit_iteration_results:
  "results (reddit_iteration env name sub s) =
     results s @ map (reddit_record env sub)
       (filter (\<lambda>p. verifyMagazineIdentity name (post_title p)) (reddit_posts_of env sub))"
  by (simp add: reddit_iteration_def try_catch_def reddit_try_def Let_def emit_def
      reddit_posts_results reddit_posts_of_def split: sum.splits option.splits)

lemma reddit_loop_results:
  "results (reddit_loop env name subs s) =
     results s @ concat (map (\<lambda>sub. map (reddit_record env sub)
       (filter (\<lambda>p. verifyMagazineIdentity name (post_title p)) (reddit_posts_of env sub))) subs)"
  by (induction subs arbitrary: s) (simp_all add: reddit_iteration_results)

lemma reddit_exact:
  "fulfilled (searchRedditArchives env name) =
     concat (map (\<lambda>sub. map (reddit_record env sub)
       (filter (\<lambda>p. verifyMagazineIdentity name (post_title p)) (reddit_posts_of env sub)))
       subreddits)"
  by (simp add: fulfilled_def searchRedditArchives_def Let_def reddit_loop_results start_def)

lemma web_iteration_results:
  "results (web_iteration env name engine s) =
     results s @ map (web_record engine) (filter (web_keeps name) (page_of env engine))"
  by (simp add: web_iteration_def try_catch_def web_try_def Let_def emit_def
      web_each_results page_of_def split: sum.splits)

lemma web_loop_results:
  "results (web_loop env name engines s) =
     results s @ concat (map (\<lambda>engine. map (web_record engine)
       (filter (web_keeps name) (page_of env engine))) engines)"
  by (induction engines arbitrary: s) (simp_all add: web_iteration_results)

lemma web_exact:
  "fulfilled (searchGeneralWeb env name) =
     concat (map (\<lambda>engine. map (web_record engine)
       (filter (web_keeps name) (page_of env engine))) searchEngines)"
  by (simp add: fulfilled_def searchGeneralWeb_def Let_def web_loop_results start_def)

lemma library_each_append:
  "results (snd (library_each env name lib page s)) =
     results s @ results (snd (library_each env name lib page start))"
proof (induction page arbitrary: s)
  case Nil
  then show ?case by (simp add: start_def)
next
  case (Cons el page)
  show ?case
  proof (cases "library_keeps name el")
    case False
    then show ?thesis using Cons.IH [of s] by simp
  next
    case True
    show ?thesis
    proof (cases "new_URL env (or_else (found_href el) '''') (site_url lib)")
      case (Inl e)
      then show ?thesis using True by (simp add: start_def)
    next
      case (Inr u)
      have "results (snd (library_each env name lib (el # page) s)) =
          results (push (library_record lib el u) s)
            @ results (snd (library_each env name lib page start))"
        using True Inr Cons.IH [of "push (library_record lib el u) s"] by simp
      moreover have "results (snd (library_each env name lib (el # page) start)) =
          results (push (library_record lib el u) start)
            @ results (snd (library_each env name lib page start))"
        using True Inr Cons.IH [of "push (library_record lib el u) start"] by simp
      ultimately show ?thesis by (simp add: push_def start_def)
    qed
  qed
qed

lemma library_iteration_results:
  "results (library_iteration env name lib s) =
     results s @ results (snd (library_each env name lib (page_of env lib) start))"
proof (cases "get_html env (site_url lib)")
  case (Inl e)
  then show ?thesis by (simp add: library_iteration_failed page_of_def start_def)
next
  case (Inr page)
  obtain out s2 where run:
    "library_each env name lib page (emit (Request (site_url lib)) s) = (out, s2)"
    by (cases "library_each env name lib page (emit (Request (site_url lib)) s)")
  have "results (library_iteration env name lib s) = results s2"
    using Inr run
    by (cases out)
       (simp_all add: library_iteration_def try_catch_def library_try_def Let_def emit_def)
  also have "\<dots> = results (snd (library_each env name lib page (emit (Request (site_url lib)) s)))"
    using run by simp
  also have "\<dots> = results (emit (Request (site_url lib)) s)
      @ results (snd (library_each env name lib page start))"
    by (rule library_each_append)
  finally show ?thesis using Inr by (simp add: emit_def page_of_def)
qed

lemma library_loop_results:
  "results (library_loop env name libs s) =
     results s @ concat (map (\<lambda>lib.
       results (snd (library_each env name lib (page_of env lib) start))) libs)"
  by (induction libs arbitrary: s) (simp_all add: library_iteration_results)

lemma library_exact:
  "fulfilled (searchDigitalLibraries env name) =
     concat (map (\<lambda>lib.
       results (snd (library_each env name lib (page_of env lib) start))) libraries)"
  by (simp add: fulfilled_def searchDigitalLibraries_def Let_def library_loop_results start_def)

lemma library_each_from_page:
  assumes "r \<in> set (results (snd (library_each env name lib page s)))"
  shows "r \<in> set (results s) \<or>
     (\<exists>el\<in>set page. \<exists>u. library_keeps name el
        \<and> new_URL env (or_else (found_href el) '''') (site_url lib) = Inr u
        \<and> r = library_record lib el u)"
  using assms
proof (induction page arbitrary: s)
  case Nil
  then show ?case by simp
next
  case (Cons el page)
  show ?case
  proof (cases "library_keeps name el")
    case False
    with Cons show ?thesis by auto
  next
    case True
    show ?thesis
    proof (cases "new_URL env (or_else (found_href el) '''') (site_url lib)")
      case (Inl e)
      with True Cons.prems show ?thesis by simp
    next
      case (Inr u)
      with True Cons.prems
      have "r \<in> set (results (snd (library_each env name lib page (push (library_record lib el u) s))))"
        by simp
      from Cons.IH [OF this] True Inr show ?thesis by (auto simp: push_def)
    qed
  qed
qed

lemma resolves_Inr:
  "resolves env lib el \<longleftrightarrow>
     (\<exists>u. new_URL env (or_else (found_href el) '''') (site_url lib) = Inr u)"
  by (cases "new_URL env (or_else (found_href el) '''') (site_url lib)")
    (simp_all add: resolves_def)

lemma library_each_complete:
  assumes "\<forall>x\<in>set page. library_keeps name x \<longrightarrow> resolves env lib x"
  shows "results (snd (library_each env name lib page s)) =
     results s @ map (\<lambda>el. library_record lib el
         (case new_URL env (or_else (found_href el) '''') (site_url lib) of
            Inr u \<Rightarrow> u | Inl e \<Rightarrow> ''''))
       (filter (library_keeps name) page)"
  using assms
proof (induction page arbitrary: s)
  case Nil
  then show ?case by simp
next
  case (Cons el page)
  show ?case
  proof (cases "library_keeps name el")
    case False
    then show ?thesis using Cons by simp
  next
    case True
    then have "resolves env lib el" using Cons.prems by simp
    then obtain u where u: "new_URL env (or_else (found_href el) '''') (site_url lib) = Inr u"
      unfolding resolves_Inr by blast
    show ?thesis
      using True u Cons.IH [of "push (library_record lib el u) s"] Cons.prems
      by (simp add: push_def)
  qed
qed

lemma library_emits_resolved:
  assumes "lib \<in> set libraries" "el \<in> set (page_of env lib)" "library_keeps name el"
    "page_resolves env name lib"
  shows "\<exists>u. new_URL env (or_else (found_href el) '''') (site_url lib) = Inr u
     \<and> library_record lib el u \<in> set (fulfilled (searchDigitalLibraries env name))"
proof -
  have all: "\<forall>x\<in>set (page_of env lib). library_keeps name x \<longrightarrow> resolves env lib x"
    using assms(4) by (simp add: page_resolves_def)
  then have "resolves env lib el" using assms(2,3) by blast
  then obtain u where u: "new_URL env (or_else (found_href el) '''') (site_url lib) = Inr u"
    unfolding resolves_Inr by blast
  have "library_record lib el u
      \<in> set (results (snd (library_each env name lib (page_of env lib) start)))"
    unfolding library_each_complete [OF all] using assms(2,3) u by (auto simp: image_iff intro!: bexI [of _ el])
  then have "library_record lib el u \<in> set (fulfilled (searchDigitalLibraries env name))"
    unfolding library_exact using assms(1) by auto
  then show ?thesis using u by blast
qed

lemma library_from_page:
  assumes "r \<in> set (fulfilled (searchDigitalLibraries env name))"
  shows "\<exists>lib\<in>set libraries. \<exists>el\<in>set (page_of env lib). \<exists>u. library_keeps name el
        \<and> new_URL env (or_else (found_href el) '''') (site_url lib) = Inr u
        \<and> r = library_record lib el u"
proof -
  from assms obtain lib where lib: "lib \<in> set libraries"
    and r: "r \<in> set (results (snd (library_each env name lib (page_of env lib) start)))"
    unfolding library_exact by auto
  from library_each_from_page [OF r] show ?thesis using lib by (auto simp: start_def)
qed


lemma resolved_link_absolute: "resolver_absolute resolved_link"
proof -
  have "is_absolute_url ''https://dp.la/item/1''"
    using absolute_https [of "''dp.la/item/1''"] by simp
  then show ?thesis
    by (auto simp: resolver_absolute_def resolved_link_def split: if_splits)
qed

lemma reddit_absolute: "is_absolute_url (''https://reddit.com'' @ rest)"
  using absolute_https [of "''reddit.com'' @ rest"] by simp

lemma archive_absolute: "is_absolute_url (''https://archive.org/details/'' @ rest)"
  using absolute_https [of "''archive.org/details/'' @ rest"] by simp

lemma or_else_empty: "or_else a '''' = (case a of None \<Rightarrow> '''' | Some s \<Rightarrow> s)"
  by (simp add: or_else_def split: option.splits)





text \<open>
  Not all other fetchers tag such records \<open>Unknown\<close>: the social fetcher keeps a post
  whose creation time is no valid date with the year \<open>NaN\<close>, and a post created after
  the window with its year.
\<close>

theorem social_year_never_tagged:
  "fulfilled (searchRedditArchives invalid_date ''Widget Monthly'') =
     [\<lparr>source = ''reddit/r/magazines'', title = ''Widget Monthly scans'', year = ''NaN'',
       url = ''https://reddit.com/r/magazines/comments/2/widget_monthly_scans/'',
       description = ''''\<rparr>]
   \<and> ''NaN'' \<noteq> ''Unknown''
   \<and> \<not> isYearInRange ''NaN''
   \<and> map year (fulfilled (searchRedditArchives late_post ''Widget Monthly'')) = [''2026'']
   \<and> ''2026'' \<noteq> ''Unknown''
   \<and> \<not> isYearInRange ''2026''"
proof -
  have a: "fulfilled (searchRedditArchives invalid_date ''Widget Monthly'') =
     [\<lparr>source = ''reddit/r/magazines'', title = ''Widget Monthly scans'', year = ''NaN'',
       url = ''https://reddit.com/r/magazines/comments/2/widget_monthly_scans/'',
       description = ''''\<rparr>]"
    by code_simp
  have b: "''NaN'' \<noteq> ''Unknown''" by simp
  have c: "\<not> isYearInRange ''NaN''" by code_simp
  have d: "map year (fulfilled (searchRedditArchives late_post ''Widget Monthly'')) = [''2026'']"
    by code_simp
  have e: "''2026'' \<noteq> ''Unknown''" by simp
  have f: "\<not> isYearInRange ''2026''" by code_simp
  show ?thesis by (rule conjI [OF a conjI [OF b conjI [OF c conjI [OF d conjI [OF e f]]]]])
qed




lemma post_year_outside_window:
  "map year (fulfilled (searchRedditArchives late_post ''Widget Monthly'')) = [''2026'']
   \<and> \<not> isYearInRange ''2026''"
  by code_simp

text \<open>
  Claim C4, as amended. The urls of the catalogue fetcher are the address of the
  catalogue's detail page followed by the identifiers of the verified documents of the
  answer, and the urls of the social fetcher are the address of the site followed by
  the permalinks of the verified posts: both are absolute. The book-metadata fetcher
  copies the preview link of each kept volume and writes the empty string when the
  volume has none; the general-web fetcher copies the link of each kept element as it
  stands. The url of a record of the digital-library fetcher is what the \<^verbatim>\<open>URL\<close>
  constructor returns for the link of a kept element of the library's page (the empty
  string when it has none) resolved against the library's address; it is absolute
  whenever the constructor returns absolute addresses only, and on a page whose kept
  links all resolve every kept element contributes its resolved link.
\<close>

theorem urls_by_fetcher:
  "map url (fulfilled (searchArchiveOrg env name)) =
     map (\<lambda>item. ''https://archive.org/details/'' @ doc_identifier item)
       (filter (\<lambda>item. verifyMagazineIdentity name (doc_title item)) (archive_docs_of env))
   \<and> map url (fulfilled (searchRedditArchives env name)) =
     concat (map (\<lambda>sub. map (\<lambda>p. ''https://reddit.com'' @ permalink p)
       (filter (\<lambda>p. verifyMagazineIdentity name (post_title p)) (reddit_posts_of env sub)))
       subreddits)
   \<and> map url (fulfilled (searchGoogleBooks env name)) =
     map (\<lambda>info. case previewLink info of None \<Rightarrow> '''' | Some link \<Rightarrow> link)
       (filter (books_keeps name) (books_volumes_of env))
   \<and> map url (fulfilled (searchGeneralWeb env name)) =
     concat (map (\<lambda>engine. map (\<lambda>el. case found_href el of None \<Rightarrow> '''' | Some href \<Rightarrow> href)
       (filter (web_keeps name) (page_of env engine))) searchEngines)
   \<and> (r \<in> set (fulfilled (searchArchiveOrg env name))
          \<union> set (fulfilled (searchRedditArchives env name)) \<longrightarrow>
        is_absolute_url (url r))
   \<and> (r \<in> set (fulfilled (searchDigitalLibraries env name)) \<longrightarrow>
        (\<exists>lib\<in>set libraries. \<exists>el\<in>set (page_of env lib). library_keeps name el
           \<and> new_URL env (or_else (found_href el) '''') (site_url lib) = Inr (url r)))
   \<and> (resolver_absolute env \<and> r \<in> set (fulfilled (searchDigitalLibraries env name)) \<longrightarrow>
        is_absolute_url (url r))
   \<and> (page_resolves env name lib \<and> lib \<in> set libraries \<and> el \<in> set (page_of env lib)
        \<and> library_keeps name el \<longrightarrow>
        (\<exists>u. new_URL env (or_else (found_href el) '''') (site_url lib) = Inr u
           \<and> u \<in> url ` set (fulfilled (searchDigitalLibraries env name))))"
proof -
  have arch: "map url (fulfilled (searchArchiveOrg env name)) =
     map (\<lambda>item. ''https://archive.org/details/'' @ doc_identifier item)
       (filter (\<lambda>item. verifyMagazineIdentity name (doc_title item)) (archive_docs_of env))"
    by (simp add: archive_exact archive_record_def comp_def)
  have redd: "map url (fulfilled (searchRedditArchives env name)) =
     concat (map (\<lambda>sub. map (\<lambda>p. ''https://reddit.com'' @ permalink p)
       (filter (\<lambda>p. verifyMagazineIdentity name (post_title p)) (reddit_posts_of env sub)))
       subreddits)"
    by (simp add: reddit_exact reddit_record_def map_concat comp_def)
  have books: "map url (fulfilled (searchGoogleBooks env name)) =
     map (\<lambda>info. case previewLink info of None \<Rightarrow> '''' | Some link \<Rightarrow> link)
       (filter (books_keeps name) (books_volumes_of env))"
    by (simp add: books_exact books_record_def comp_def or_else_empty)
  have web: "map url (fulfilled (searchGeneralWeb env name)) =
     concat (map (\<lambda>engine. map (\<lambda>el. case found_href el of None \<Rightarrow> '''' | Some href \<Rightarrow> href)
       (filter (web_keeps name) (page_of env engine))) searchEngines)"
    by (simp add: web_exact web_record_def Let_def map_concat comp_def or_else_empty)
  have abs: "r \<in> set (fulfilled (searchArchiveOrg env name))
          \<union> set (fulfilled (searchRedditArchives env name)) \<longrightarrow>
        is_absolute_url (url r)"
  proof (rule impI)
    assume "r \<in> set (fulfilled (searchArchiveOrg env name))
          \<union> set (fulfilled (searchRedditArchives env name))"
    then have "url r \<in> set (map url (fulfilled (searchArchiveOrg env name)))
        \<or> url r \<in> set (map url (fulfilled (searchRedditArchives env name)))"
      by auto
    then show "is_absolute_url (url r)"
      unfolding arch redd
      by (auto simp: archive_absolute [simplified] reddit_absolute [simplified])
  qed
  have lib1: "r \<in> set (fulfilled (searchDigitalLibraries env name)) \<longrightarrow>
        (\<exists>lib\<in>set libraries. \<exists>el\<in>set (page_of env lib). library_keeps name el
           \<and> new_URL env (or_else (found_href el) '''') (site_url lib) = Inr (url r))"
  proof (rule impI)
    assume "r \<in> set (fulfilled (searchDigitalLibraries env name))"
    from library_from_page [OF this] obtain lib el u
      where h: "lib \<in> set libraries" "el \<in> set (page_of env lib)" "library_keeps name el"
        "new_URL env (or_else (found_href el) '''') (site_url lib) = Inr u"
        "r = library_record lib el u"
      by blast
    have "url r = u" using h(5) by (simp add: library_record_def)
    then show "\<exists>lib\<in>set libraries. \<exists>el\<in>set (page_of env lib). library_keeps name el
           \<and> new_URL env (or_else (found_href el) '''') (site_url lib) = Inr (url r)"
      using h(1-4) by blast
  qed
  have lib2: "resolver_absolute env \<and> r \<in> set (fulfilled (searchDigitalLibraries env name)) \<longrightarrow>
        is_absolute_url (url r)"
    using lib1 unfolding resolver_absolute_def by blast
  have lib3: "page_resolves env name lib \<and> lib \<in> set libraries \<and> el \<in> set (page_of env lib)
        \<and> library_keeps name el \<longrightarrow>
        (\<exists>u. new_URL env (or_else (found_href el) '''') (site_url lib) = Inr u
           \<and> u \<in> url ` set (fulfilled (searchDigitalLibraries env name)))"
  proof (rule impI)
    assume a: "page_resolves env name lib \<and> lib \<in> set libraries \<and> el \<in> set (page_of env lib)
        \<and> library_keeps name el"
    then obtain u where u: "new_URL env (or_else (found_href el) '''') (site_url lib) = Inr u"
      "library_record lib el u \<in> set (fulfilled (searchDigitalLibraries env name))"
      using library_emits_resolved [of lib el env name] by blast
    have "url (library_record lib el u) = u" by (simp add: library_record_def)
    then have "u \<in> url ` set (fulfilled (searchDigitalLibraries env name))"
      using u(2) by (metis imageI)
    then show "\<exists>u. new_URL env (or_else (found_href el) '''') (site_url lib) = Inr u
           \<and> u \<in> url ` set (fulfilled (searchDigitalLibraries env name))"
      using u(1) by blast
  qed
  show ?thesis
    by (rule conjI [OF arch conjI [OF redd conjI [OF books conjI [OF web
          conjI [OF abs conjI [OF lib1 conjI [OF lib2 lib3]]]]]]])
qed

theorem urls_by_fetcher_witness:
  "resolver_absolute resolved_link
   \<and> \<lparr>source = ''Digital Public Library of America'', title = ''Widget Monthly 3'',
       year = ''2011'', url = ''https://dp.la/item/1'', description = ''''\<rparr>
       \<in> set (fulfilled (searchDigitalLibraries resolved_link ''Widget Monthly''))
   \<and> is_absolute_url ''https://dp.la/item/1''
   \<and> \<lparr>source = ''archive.org'', title = ''Widget Monthly'', year = ''2012'',
       url = ''https://archive.org/details/wm12'', description = ''''\<rparr>
       \<in> set (fulfilled (searchArchiveOrg widget_env ''Widget Monthly''))
   \<and> is_absolute_url ''https://archive.org/details/wm12''"
proof -
  let ?l = "\<lparr>source = ''Digital Public Library of America'', title = ''Widget Monthly 3'',
       year = ''2011'', url = ''https://dp.la/item/1'', description = ''''\<rparr>"
  let ?a = "\<lparr>source = ''archive.org'', title = ''Widget Monthly'', year = ''2012'',
     url = ''https://archive.org/details/wm12'', description = ''''\<rparr>"
  have hr: "resolver_absolute resolved_link" by (rule resolved_link_absolute)
  have hl: "?l \<in> set (fulfilled (searchDigitalLibraries resolved_link ''Widget Monthly''))"
    by code_simp
  have ha: "?a \<in> set (fulfilled (searchArchiveOrg widget_env ''Widget Monthly''))"
    by code_simp
  note tl = urls_by_fetcher [of resolved_link "''Widget Monthly''" ?l,
      THEN conjunct2, THEN conjunct2, THEN conjunct2, THEN conjunct2, THEN conjunct2,
      THEN conjunct2, THEN conjunct1]
  have "is_absolute_url (url ?l)" by (rule mp [OF tl conjI [OF hr hl]])
  then have 1: "is_absolute_url ''https://dp.la/item/1''" by simp
  note ta = urls_by_fetcher [of widget_env "''Widget Monthly''" ?a,
      THEN conjunct2, THEN conjunct2, THEN conjunct2, THEN conjunct2, THEN conjunct1]
  have "is_absolute_url (url ?a)" by (rule mp [OF ta]) (rule UnI1, rule ha)
  then have 2: "is_absolute_url ''https://archive.org/details/wm12''" by simp
  show ?thesis by (rule conjI [OF hr conjI [OF hl conjI [OF 1 conjI [OF ha 2]]]])
qed

theorem url_not_absolute:
  "fst (searchGoogleBooks no_preview ''Widget Monthly'') =
     Inr [\<lparr>source = ''google_books'', title = ''Widget Monthly'', year = ''2012'', url = '''',
           description = ''''\<rparr>]
   \<and> \<not> is_absolute_url ''''
   \<and> fst (searchGeneralWeb relative_link ''Widget Monthly'') =
     Inr [\<lparr>source = ''Google'', title = ''Widget Monthly'', year = ''Unknown'',
           url = ''/url?q=widget'', description = ''All issues''\<rparr>]
   \<and> \<not> is_absolute_url ''/url?q=widget''"
  by code_simp

text \<open>
  Claim C8, as amended. When the catalogue answers with the two documents of the
  scenario and the target name is \<open>Widget Monthly\<close>, the catalogue fetcher returns
  exactly one record: its source is \<open>archive.org\<close>, its url ends in \<open>wm12\<close> and its
  year is \<open>2012\<close>.
\<close>

theorem searchArchiveOrg_scenario:
  "get_archive env ''https://archive.org/advancedsearch.php'' = Inr widget_response \<longrightarrow>
     fst (searchArchiveOrg env ''Widget Monthly'') =
       Inr [\<lparr>source = ''archive.org'', title = ''Widget Monthly'', year = ''2012'',
             url = ''https://archive.org/details/wm12'', description = ''''\<rparr>]
     \<and> suffix ''wm12'' ''https://archive.org/details/wm12''"
proof -
  have r: "archive_results ''Widget Monthly'' widget_response =
       [\<lparr>source = ''archive.org'', title = ''Widget Monthly'', year = ''2012'',
         url = ''https://archive.org/details/wm12'', description = ''''\<rparr>]"
    by code_simp
  have s: "suffix ''wm12'' ''https://archive.org/details/wm12''"
    by code_simp
  show ?thesis using r s by (simp add: searchArchiveOrg_def)
qed

theorem searchArchiveOrg_scenario_witness:
  "get_archive widget_env ''https://archive.org/advancedsearch.php'' = Inr widget_response
   \<and> fst (searchArchiveOrg widget_env ''Widget Monthly'') =
       Inr [\<lparr>source = ''archive.org'', title = ''Widget Monthly'', year = ''2012'',
             url = ''https://archive.org/details/wm12'', description = ''''\<rparr>]"
proof -
  have h: "get_archive widget_env ''https://archive.org/advancedsearch.php'' = Inr widget_response"
    by (simp add: widget_env_def)
  from searchArchiveOrg_scenario [of widget_env] h show ?thesis by blast
qed

theorem scenario_source_is_archive_org:
  "map source (fulfilled (searchArchiveOrg widget_env ''Widget Monthly'')) = [''archive.org'']
   \<and> ''archive.org'' \<noteq> ''archive-catalog''"
  by code_simp

end
